theory Spec2Isabelle
  imports Main "HOL-Library.AList"
begin

section \<open>The dashboard's DataStore: an in-memory resource cache with watchers\<close>

text \<open>
  The store keeps three pieces of state: the dictionary \<open>_d\<close> from resource names to
  resources, the set \<open>_cbs\<close> of filtered callbacks and the dictionary \<open>_w\<close> of
  per-name watch counts. A call of \<open>watch\<close> builds a closure object (the watch
  function) that owns a private set \<open>cbs\<close> and closes over \<open>namesArr\<close> and
  \<open>names\<close>.

  Modelling decisions.
  \<^item> The two dictionaries are plain objects created by \<open>{}\<close>. Their own properties are
    association lists in insertion order: an assignment is \<open>AList.update\<close>, \<open>delete\<close>
    is \<open>AList.delete\<close>. A read \<open>obj[k]\<close> goes through the prototype chain: it yields
    the own property, else the member of \<open>Object.prototype\<close> of that name, else
    \<open>undefined\<close>. \<open>hasOwnProperty\<close> and \<open>for ... in\<close> see own properties only.
  \<^item> The values that the code can store in \<open>_w\<close> are numbers, \<open>NaN\<close> and strings;
    numbers are integers (the counts stay far below the range where doubles lose
    precision).
  \<^item> A \<open>TypeError\<close> raised by the code ends the operation; the state keeps what
    was done before it, so an operation that can raise returns its outcome together
    with the state.
  \<^item> A JavaScript \<open>Set\<close> is a duplicate-free list in insertion order.
  \<^item> A resource is a record with at least the two members of the interface; the record
    extension stands for whatever else the object carries, so two resources with the
    same name and the same snapshot need not be the same object. Its two methods
    return without raising.
  \<^item> \<open>isEqual\<close> on snapshots is equality of the snapshot type.
  \<^item> Closures are records of what they capture, together with an allocation number
    that stands for the identity of the function object. Watch functions live in a heap
    (a list indexed by handle number) because their \<open>cbs\<close> set is mutated.
  \<^item> A user callback is an opaque value; calling it appends the call to a log kept in
    the state. User callbacks are assumed to return without raising and not to call
    back into the store.
\<close>

subsection \<open>Resources\<close>

type_synonym name = string

record 'o resource =
  getName :: name
  toObject :: 'o

definition isResourceEqual :: "('o, 'y) resource_scheme \<Rightarrow> ('o, 'z) resource_scheme \<Rightarrow> bool" where
  "isResourceEqual a b = (toObject a = toObject b)"

subsection \<open>Names\<close>

text \<open>\<open>String.prototype.split\<close> with a one-character separator: a string with \<open>k\<close>
  separators gives \<open>k + 1\<close> parts, some of which may be empty.\<close>

fun split_on :: "char \<Rightarrow> string \<Rightarrow> string list" where
  "split_on sep [] = [[]]"
| "split_on sep (c # cs) =
     (if c = sep then [] # split_on sep cs
      else (case split_on sep cs of
              [] \<Rightarrow> [[c]]
            | part # parts \<Rightarrow> (c # part) # parts))"

text \<open>The body of the \<open>map\<close> in \<open>watchNames\<close>, with the variable \<open>prev\<close> threaded
  through.\<close>

fun watchNames_map :: "string \<Rightarrow> string list \<Rightarrow> string list" where
  "watchNames_map prev [] = []"
| "watchNames_map prev (part # parts) =
     (let name = (if prev \<noteq> [] then prev @ ''/'' @ part else part)
      in name # watchNames_map name parts)"

definition watchNames :: "name \<Rightarrow> name list" where
  "watchNames resourceName = watchNames_map [] (split_on (CHR ''/'') resourceName)"

text \<open>The result of \<open>Array.prototype.find\<close> is used as a condition: \<open>undefined\<close> and
  the empty string are falsy, every other string is truthy.\<close>

fun truthy :: "string option \<Rightarrow> bool" where
  "truthy None = False"
| "truthy (Some str) = (str \<noteq> [])"

subsection \<open>Sets in insertion order\<close>

definition Set_add :: "'a \<Rightarrow> 'a list \<Rightarrow> 'a list" where
  "Set_add x xs = (if x \<in> set xs then xs else xs @ [x])"

definition Set_delete :: "'a \<Rightarrow> 'a list \<Rightarrow> 'a list" where
  "Set_delete x xs = removeAll x xs"

definition Set_new :: "'a list \<Rightarrow> 'a list" where
  "Set_new xs = fold Set_add xs []"

subsection \<open>Plain objects used as dictionaries\<close>

datatype error = TypeError

text \<open>The members of the standard \<open>Object.prototype\<close> (ECMAScript, with the legacy
  members of its Annex B). All are functions, except \<open>__proto__\<close>, an accessor that
  yields \<open>Object.prototype\<close> itself.\<close>

definition Object_prototype :: "name list" where
  "Object_prototype =
     [''constructor'', ''__defineGetter__'', ''__defineSetter__'', ''hasOwnProperty'',
      ''__lookupGetter__'', ''__lookupSetter__'', ''isPrototypeOf'', ''propertyIsEnumerable'',
      ''toString'', ''valueOf'', ''__proto__'', ''toLocaleString'']"

text \<open>The result of a read \<open>obj[k]\<close>: \<open>undefined\<close>, an own property, or the inherited
  member of that name.\<close>

datatype 'a lookup = Undefined | Own 'a | Inherited name

definition get_prop :: "(name \<times> 'a) list \<Rightarrow> name \<Rightarrow> 'a lookup" where
  "get_prop obj k =
     (case map_of obj k of
        Some v \<Rightarrow> Own v
      | None \<Rightarrow> if k \<in> set Object_prototype then Inherited k else Undefined)"

text \<open>The call \<open>obj.hasOwnProperty(k)\<close> reads the property \<open>hasOwnProperty\<close> of \<open>obj\<close>
  first. An own property of that name holds a count or a resource, which is not
  callable, and the call raises.\<close>

definition hasOwnProperty :: "(name \<times> 'a) list \<Rightarrow> name \<Rightarrow> error + bool" where
  "hasOwnProperty obj k =
     (if ''hasOwnProperty'' \<in> fst ` set obj then Inl TypeError else Inr (k \<in> fst ` set obj))"

subsection \<open>Values stored in \<open>_w\<close>\<close>

text \<open>\<open>Text m k\<close> is the string made of the text of the inherited member \<open>m\<close> followed
  by \<open>k\<close> characters \<open>1\<close>; it is never empty and never the text of a number.\<close>

datatype count = Num int | NaN | Text name nat

text \<open>\<open>v || 0\<close>: a falsy \<open>v\<close> (\<open>undefined\<close>, \<open>0\<close>, \<open>NaN\<close>) gives \<open>0\<close>; functions, objects
  and non-empty strings are truthy.\<close>

fun or_zero :: "count lookup \<Rightarrow> count lookup" where
  "or_zero Undefined = Own (Num 0)"
| "or_zero (Own (Num c)) = Own (Num c)"
| "or_zero (Own NaN) = Own (Num 0)"
| "or_zero (Own (Text m k)) = Own (Text m k)"
| "or_zero (Inherited m) = Inherited m"

text \<open>\<open>v + 1\<close>: addition on a number, concatenation of \<open>"1"\<close> to the text of anything
  else.\<close>

fun plus_one :: "count lookup \<Rightarrow> count" where
  "plus_one (Own (Num c)) = Num (c + 1)"
| "plus_one (Own NaN) = NaN"
| "plus_one (Own (Text m k)) = Text m (Suc k)"
| "plus_one (Inherited m) = Text m 1"
| "plus_one Undefined = NaN"

text \<open>\<open>v - 1\<close>: subtraction on a number; a function, an object or a string that is not
  the text of a number converts to \<open>NaN\<close>.\<close>

fun minus_one :: "count lookup \<Rightarrow> count" where
  "minus_one (Own (Num c)) = Num (c - 1)"
| "minus_one (Own NaN) = NaN"
| "minus_one (Own (Text m k)) = NaN"
| "minus_one (Inherited m) = NaN"
| "minus_one Undefined = NaN"

text \<open>The assignment \<open>_w[n] = v\<close> of a number or string: it creates or updates the own
  property, except that for \<open>__proto__\<close> without an own property it runs the inherited
  setter, which ignores a value that is not an object.\<close>

definition set_count :: "name \<Rightarrow> count \<Rightarrow> (name \<times> count) list \<Rightarrow> (name \<times> count) list" where
  "set_count n v w =
     (if n = ''__proto__'' \<and> n \<notin> fst ` set w then w else AList.update n v w)"

subsection \<open>Callbacks, watch functions and the store\<close>

datatype cb_kind = Plain | Array

text \<open>A \<open>filteredCb\<close> closure: which of the two registration paths made it, the
  \<open>names\<close> and \<open>namesArr\<close> it closes over, and the user callback \<open>cb\<close>.\<close>

record 'c filteredCb =
  fid :: nat
  kind :: cb_kind
  cnames :: "name list"
  cnamesArr :: "name list"
  cb :: 'c

text \<open>A call received by a user callback: \<open>cb(name, data)\<close> for the plain variant,
  \<open>cb(arr, name, data)\<close> for the array variant; \<open>undefined\<close> data is \<open>None\<close>. The
  elements of \<open>arr\<close> are results of \<open>get\<close>.\<close>

datatype ('r, 'c) call =
  Call 'c name "'r option"
| ArrayCall 'c "'r lookup list" name "'r option"

record 'c watchFunc =
  namesArr :: "name list"
  names :: "name list"
  cbs :: "'c filteredCb list"

record ('o, 'z, 'c) DataStore =
  store_d :: "(name \<times> ('o, 'z) resource_scheme) list"
  store_cbs :: "'c filteredCb list"
  store_w :: "(name \<times> count) list"
  heap :: "'c watchFunc list"
  fresh :: nat
  calls :: "(nat \<times> (('o, 'z) resource_scheme, 'c) call) list"

definition DataStore_new :: "('o, 'z, 'c) DataStore" where
  "DataStore_new = \<lparr>store_d = [], store_cbs = [], store_w = [], heap = [], fresh = 0, calls = []\<rparr>"

definition get :: "name \<Rightarrow> ('o, 'z, 'c) DataStore \<Rightarrow> ('o, 'z) resource_scheme lookup" where
  "get name s = get_prop (store_d s) name"

subsection \<open>Notification\<close>

definition plain_matches :: "name list \<Rightarrow> name \<Rightarrow> bool" where
  "plain_matches nms name = truthy (List.find (\<lambda>n. n \<in> set nms) (watchNames name))"

definition array_of :: "name list \<Rightarrow> ('o, 'z, 'c) DataStore \<Rightarrow> ('o, 'z) resource_scheme lookup list" where
  "array_of nmsArr s =
     fold (\<lambda>name arr. case get name s of Undefined \<Rightarrow> arr | data \<Rightarrow> arr @ [data]) nmsArr []"

definition fires :: "'c filteredCb \<Rightarrow> name \<Rightarrow> bool" where
  "fires f name = (case kind f of
       Plain \<Rightarrow> plain_matches (cnames f) name
     | Array \<Rightarrow> name \<in> set (cnames f))"

definition call_of :: "'c filteredCb \<Rightarrow> name \<Rightarrow> ('o, 'z) resource_scheme option \<Rightarrow>
    ('o, 'z, 'c) DataStore \<Rightarrow> (('o, 'z) resource_scheme, 'c) call" where
  "call_of f name data s = (case kind f of
       Plain \<Rightarrow> Call (cb f) name data
     | Array \<Rightarrow> ArrayCall (cb f) (array_of (cnamesArr f) s) name data)"

definition invoke :: "name \<Rightarrow> ('o, 'z) resource_scheme option \<Rightarrow> 'c filteredCb \<Rightarrow>
    ('o, 'z, 'c) DataStore \<Rightarrow> ('o, 'z, 'c) DataStore" where
  "invoke name data f s =
     (if fires f name then s\<lparr>calls := calls s @ [(fid f, call_of f name data s)]\<rparr> else s)"

definition publish :: "name \<Rightarrow> ('o, 'z) resource_scheme option \<Rightarrow>
    ('o, 'z, 'c) DataStore \<Rightarrow> ('o, 'z, 'c) DataStore" where
  "publish name data s = fold (invoke name data) (store_cbs s) s"

subsection \<open>The operations of the store\<close>

definition watch :: "name list \<Rightarrow> ('o, 'z, 'c) DataStore \<Rightarrow> nat \<times> ('o, 'z, 'c) DataStore" where
  "watch nmsArr s =
     (length (heap s),
      s\<lparr>heap := heap s @ [\<lparr>namesArr = nmsArr, names = Set_new nmsArr, cbs = []\<rparr>]\<rparr>)"

text \<open>The body of the \<open>forEach\<close> in \<open>add\<close>. The condition reads \<open>_d[name]\<close> through the
  prototype chain: an inherited member is truthy, and \<open>isResourceEqual\<close> then calls
  its missing \<open>toObject\<close>, which raises. The assignment is reached only when the read
  gave \<open>undefined\<close> or an own property, so it writes an own property.\<close>

definition add_item :: "('o, 'z) resource_scheme \<Rightarrow> ('o, 'z, 'c) DataStore \<Rightarrow>
    error option \<times> ('o, 'z, 'c) DataStore" where
  "add_item item s =
     (let name = getName item in
      case get name s of
        Inherited m \<Rightarrow> (Some TypeError, s)
      | Own stored \<Rightarrow>
          if isResourceEqual item stored then (None, s)
          else (None, publish name (Some item) (s\<lparr>store_d := AList.update name item (store_d s)\<rparr>))
      | Undefined \<Rightarrow>
          (None, publish name (Some item) (s\<lparr>store_d := AList.update name item (store_d s)\<rparr>)))"

fun add_forEach :: "('o, 'z) resource_scheme list \<Rightarrow> ('o, 'z, 'c) DataStore \<Rightarrow>
    error option \<times> ('o, 'z, 'c) DataStore" where
  "add_forEach [] s = (None, s)"
| "add_forEach (item # items) s =
     (case add_item item s of
        (Some e, s') \<Rightarrow> (Some e, s')
      | (None, s') \<Rightarrow> add_forEach items s')"

definition add :: "('o, 'z) resource_scheme list \<Rightarrow> ('o, 'z, 'c) DataStore \<Rightarrow>
    (error + nat) \<times> ('o, 'z, 'c) DataStore" where
  "add items s =
     (case add_forEach items s of
        (Some e, s') \<Rightarrow> (Inl e, s')
      | (None, s') \<Rightarrow> (Inr (fst (watch (map getName items) s')), snd (watch (map getName items) s')))"

definition del :: "name \<Rightarrow> ('o, 'z, 'c) DataStore \<Rightarrow> ('o, 'z, 'c) DataStore" where
  "del name s = publish name None (s\<lparr>store_d := AList.delete name (store_d s)\<rparr>)"

text \<open>\<open>_w[n] = (_w[n] || 0) + 1\<close> and the body of the inner \<open>forEach\<close> of
  \<open>unsubscribe\<close>.\<close>

definition incr :: "name \<Rightarrow> (name \<times> count) list \<Rightarrow> (name \<times> count) list" where
  "incr n w = set_count n (plus_one (or_zero (get_prop w n))) w"

definition decr :: "name \<Rightarrow> (name \<times> count) list \<Rightarrow> (name \<times> count) list" where
  "decr n w =
     (let w' = set_count n (minus_one (or_zero (get_prop w n))) w
      in if get_prop w' n = Own (Num 0) then AList.delete n w' else w')"

text \<open>The two registration paths. A handle number that was never returned by \<open>watch\<close>
  denotes no watch function, and calling it is not possible; the model leaves the
  state as it is.\<close>

definition watchFunc_call :: "nat \<Rightarrow> 'c \<Rightarrow> ('o, 'z, 'c) DataStore \<Rightarrow> ('o, 'z, 'c) DataStore" where
  "watchFunc_call h c s =
     (if h < length (heap s) then
        (let wfn = heap s ! h;
             filteredCb = \<lparr>fid = fresh s, kind = Plain, cnames = names wfn,
                            cnamesArr = namesArr wfn, cb = c\<rparr>
         in s\<lparr>heap := (heap s)[h := wfn\<lparr>cbs := Set_add filteredCb (cbs wfn)\<rparr>],
              store_cbs := Set_add filteredCb (store_cbs s),
              store_w := fold incr (names wfn) (store_w s),
              fresh := Suc (fresh s)\<rparr>)
      else s)"

definition arrayWatcher :: "nat \<Rightarrow> 'c \<Rightarrow> ('o, 'z, 'c) DataStore \<Rightarrow> ('o, 'z, 'c) DataStore" where
  "arrayWatcher h c s =
     (if h < length (heap s) then
        (let wfn = heap s ! h;
             filteredCb = \<lparr>fid = fresh s, kind = Array, cnames = names wfn,
                            cnamesArr = namesArr wfn, cb = c\<rparr>
         in s\<lparr>heap := (heap s)[h := wfn\<lparr>cbs := Set_add filteredCb (cbs wfn)\<rparr>],
              store_cbs := Set_add filteredCb (store_cbs s),
              store_w := fold incr (names wfn) (store_w s),
              fresh := Suc (fresh s)\<rparr>)
      else s)"

definition unsubscribe_cb :: "nat \<Rightarrow> 'c filteredCb \<Rightarrow> ('o, 'z, 'c) DataStore \<Rightarrow> ('o, 'z, 'c) DataStore" where
  "unsubscribe_cb h f s =
     (let wfn = heap s ! h
      in s\<lparr>heap := (heap s)[h := wfn\<lparr>cbs := Set_delete f (cbs wfn)\<rparr>],
           store_cbs := Set_delete f (store_cbs s),
           store_w := fold decr (names wfn) (store_w s)\<rparr>)"

definition unsubscribe :: "nat \<Rightarrow> ('o, 'z, 'c) DataStore \<Rightarrow> ('o, 'z, 'c) DataStore" where
  "unsubscribe h s =
     (if h < length (heap s) then fold (unsubscribe_cb h) (cbs (heap s ! h)) s else s)"

text \<open>The \<open>find\<close> of \<open>garbageCollect\<close>, whose predicate calls
  \<open>watchedNames.hasOwnProperty\<close> and may raise.\<close>

fun find_watched :: "(name \<times> count) list \<Rightarrow> name list \<Rightarrow> error + name option" where
  "find_watched watchedNames [] = Inr None"
| "find_watched watchedNames (name # rest) =
     (case hasOwnProperty watchedNames name of
        Inl e \<Rightarrow> Inl e
      | Inr True \<Rightarrow> Inr (Some name)
      | Inr False \<Rightarrow> find_watched watchedNames rest)"

text \<open>The loop of \<open>garbageCollect\<close> over the keys that \<open>_d\<close> had when the loop
  started.\<close>

fun gc_loop :: "name list \<Rightarrow> ('o, 'z, 'c) DataStore \<Rightarrow> error option \<times> ('o, 'z, 'c) DataStore" where
  "gc_loop [] s = (None, s)"
| "gc_loop (k # ks) s =
     (case hasOwnProperty (store_d s) k of
        Inl e \<Rightarrow> (Some e, s)
      | Inr False \<Rightarrow> gc_loop ks s
      | Inr True \<Rightarrow>
          (case find_watched (store_w s) (watchNames k) of
             Inl e \<Rightarrow> (Some e, s)
           | Inr found \<Rightarrow>
               if truthy found then gc_loop ks s
               else gc_loop ks (s\<lparr>store_d := AList.delete k (store_d s)\<rparr>)))"

definition garbageCollect :: "('o, 'z, 'c) DataStore \<Rightarrow> error option \<times> ('o, 'z, 'c) DataStore" where
  "garbageCollect s = gc_loop (map fst (store_d s)) s"

text \<open>The retention test of \<open>garbageCollect\<close> when \<open>hasOwnProperty\<close> is the inherited
  method: the result of the \<open>find\<close>, used as a condition.\<close>

definition gc_keep :: "(name \<times> count) list \<Rightarrow> name \<Rightarrow> bool" where
  "gc_keep watchedNames k = truthy (List.find (\<lambda>name. name \<in> fst ` set watchedNames) (watchNames k))"

subsection \<open>Notifications of one publication\<close>

text \<open>The calls that one run of \<open>_publish\<close> makes, in the order of \<open>_cbs\<close>, each tagged
  with the closure that makes it.\<close>

definition notifications :: "name \<Rightarrow> ('o, 'z) resource_scheme option \<Rightarrow> ('o, 'z, 'c) DataStore \<Rightarrow>
    (nat \<times> (('o, 'z) resource_scheme, 'c) call) list" where
  "notifications name data s =
     map (\<lambda>f. (fid f, call_of f name data s)) (filter (\<lambda>f. fires f name) (store_cbs s))"

subsection \<open>Sequences of client operations\<close>

text \<open>A client calls the operations one after the other; handles are named by the
  number that \<open>watch\<close> returned. After an operation that raised, the client goes on
  with the store as the operation left it.\<close>

datatype ('o, 'z, 'c) op =
  Add "('o, 'z) resource_scheme list"
| Get name
| Del name
| Watch "name list"
| WatchFuncCall nat 'c
| ArrayWatcher nat 'c
| Unsubscribe nat
| GarbageCollect

fun exec :: "('o, 'z, 'c) op \<Rightarrow> ('o, 'z, 'c) DataStore \<Rightarrow> ('o, 'z, 'c) DataStore" where
  "exec (Add items) s = snd (add items s)"
| "exec (Get n) s = s"
| "exec (Del n) s = del n s"
| "exec (Watch L) s = snd (watch L s)"
| "exec (WatchFuncCall h c) s = watchFunc_call h c s"
| "exec (ArrayWatcher h c) s = arrayWatcher h c s"
| "exec (Unsubscribe h) s = unsubscribe h s"
| "exec GarbageCollect s = snd (garbageCollect s)"

definition run :: "('o, 'z, 'c) op list \<Rightarrow> ('o, 'z, 'c) DataStore \<Rightarrow> ('o, 'z, 'c) DataStore" where
  "run ops s = fold exec ops s"

subsection \<open>Bookkeeping on ordinary names\<close>

text \<open>Auxiliary notions for the lemmas about stores in which no watched name is a
  member of \<open>Object.prototype\<close>. \<open>register\<close> names the two registration paths by the
  kind of closure they build; \<open>count_of\<close> reads a count as a number, with \<open>0\<close> for
  anything else; \<open>ordinary_counts\<close> says that \<open>_w\<close> holds non-zero numbers under names
  that are not inherited.\<close>

definition register :: "cb_kind \<Rightarrow> nat \<Rightarrow> 'c \<Rightarrow> ('o, 'z, 'c) DataStore \<Rightarrow> ('o, 'z, 'c) DataStore" where
  "register k h c s = (case k of Plain \<Rightarrow> watchFunc_call h c s | Array \<Rightarrow> arrayWatcher h c s)"

definition count_of :: "(name \<times> count) list \<Rightarrow> name \<Rightarrow> int" where
  "count_of w n = (case get_prop w n of Own (Num c) \<Rightarrow> c | _ \<Rightarrow> 0)"

definition ordinary_counts :: "(name \<times> count) list \<Rightarrow> bool" where
  "ordinary_counts w \<longleftrightarrow>
     (\<forall>n v. map_of w n = Some v \<longrightarrow> n \<notin> set Object_prototype \<and> (\<exists>c. v = Num c \<and> c \<noteq> 0))"

text \<open>The invariant: closure identities are distinct and below the allocation counter;
  every watch function has a duplicate-free \<open>names\<close> and \<open>cbs\<close>, its callbacks are
  registered in the store and close over its \<open>names\<close>; different watch functions own
  different callbacks; the count of a name is the number of registered callbacks whose
  \<open>names\<close> contain it; no watched name and no key of \<open>_d\<close> is inherited.\<close>

definition store_inv :: "('o, 'z, 'c) DataStore \<Rightarrow> bool" where
  "store_inv s \<longleftrightarrow>
     distinct (map fid (store_cbs s))
   \<and> (\<forall>f \<in> set (store_cbs s). fid f < fresh s)
   \<and> (\<forall>i < length (heap s).
        distinct (names (heap s ! i)) \<and> distinct (cbs (heap s ! i))
      \<and> set (cbs (heap s ! i)) \<subseteq> set (store_cbs s)
      \<and> (\<forall>f \<in> set (cbs (heap s ! i)). cnames f = names (heap s ! i)))
   \<and> (\<forall>i < length (heap s). \<forall>j < length (heap s).
        i \<noteq> j \<longrightarrow> set (cbs (heap s ! i)) \<inter> set (cbs (heap s ! j)) = {})
   \<and> (\<forall>n. count_of (store_w s) n
          = int (length (filter (\<lambda>f. n \<in> set (cnames f)) (store_cbs s))))
   \<and> ordinary_counts (store_w s)
   \<and> (\<forall>i < length (heap s). set (names (heap s ! i)) \<inter> set Object_prototype = {})
   \<and> fst ` set (store_d s) \<inter> set Object_prototype = {}"

text \<open>An operation is ordinary when it does not create a handle for an inherited
  name.\<close>

fun ordinary_op :: "('o, 'z, 'c) op \<Rightarrow> bool" where
  "ordinary_op (Watch L) = (set L \<inter> set Object_prototype = {})"
| "ordinary_op other = True"

subsection \<open>Ancestor prefixes as the specification words them\<close>

text \<open>The truncations of a name at each separator, followed by the name itself. This
  definition follows the specification's wording and is compared with \<open>watchNames\<close>.\<close>

definition spec_ancestor_prefixes :: "name \<Rightarrow> name list" where
  "spec_ancestor_prefixes N =
     map (\<lambda>i. take i N) (filter (\<lambda>i. N ! i = CHR ''/'') [0..<length N]) @ [N]"

text \<open>The same list computed in one pass over the characters after a prefix \<open>p\<close>.\<close>

fun prefixes_from :: "string \<Rightarrow> string \<Rightarrow> string list" where
  "prefixes_from p [] = [p]"
| "prefixes_from p (c # cs) =
     (if c = CHR ''/'' then p # prefixes_from (p @ [c]) cs else prefixes_from (p @ [c]) cs)"

subsection \<open>Concrete stores used in examples\<close>

text \<open>Resources with a natural number as snapshot and a second number standing for the
  rest of the object; user callbacks are named by strings.\<close>

definition res :: "name \<Rightarrow> nat \<Rightarrow> nat \<Rightarrow> (nat, nat) resource_scheme" where
  "res n v i = \<lparr>getName = n, toObject = v, \<dots> = i\<rparr>"

definition empty_store :: "(nat, nat, string) DataStore" where
  "empty_store = DataStore_new"

text \<open>\<open>watch("a")(cb)\<close> on a new store.\<close>

definition watching_a :: "(nat, nat, string) DataStore" where
  "watching_a = run [Watch [''a''], WatchFuncCall 0 ''cb''] empty_store"

text \<open>\<open>watch("a")(cb)\<close>, then \<open>add\<close> of a resource named \<open>a\<close>.\<close>

definition holding_a :: "(nat, nat, string) DataStore" where
  "holding_a = run [Add [res ''a'' 1 0]] watching_a"

text \<open>Two independent handles on \<open>n\<close>, each with one callback, and an entry \<open>n\<close>.\<close>

definition two_handles :: "(nat, nat, string) DataStore" where
  "two_handles = run [Watch [''n''], WatchFuncCall 0 ''cb1'', Watch [''n''], WatchFuncCall 1 ''cb2'',
     Add [res ''n'' 1 0]] empty_store"

text \<open>\<open>watch("/a")(cb)\<close>, then \<open>add\<close> of a resource named \<open>/a\<close>.\<close>

definition watching_slash_a :: "(nat, nat, string) DataStore" where
  "watching_slash_a = run [Watch [''/a''], WatchFuncCall 0 ''cb''] empty_store"

definition holding_slash_a :: "(nat, nat, string) DataStore" where
  "holding_slash_a = run [Add [res ''/a'' 1 0]] watching_slash_a"

text \<open>\<open>watch("x", "y").arrayWatcher(cb)\<close>, then \<open>add\<close> of \<open>x\<close> and \<open>y\<close>.\<close>

definition array_xy :: "(nat, nat, string) DataStore" where
  "array_xy = run [Watch [''x'', ''y''], ArrayWatcher 0 ''cb'', Add [res ''x'' 1 0, res ''y'' 2 0]] empty_store"

text \<open>\<open>watch("x", "x")\<close> with a plain and an array callback, then \<open>add\<close> of \<open>x\<close>.\<close>

definition array_xx :: "(nat, nat, string) DataStore" where
  "array_xx = run [Watch [''x'', ''x''], WatchFuncCall 0 ''cb'', ArrayWatcher 0 ''acb'',
     Add [res ''x'' 1 0]] empty_store"

text \<open>Stores that watch the inherited name \<open>toString\<close>: \<open>watch("toString")(cb)\<close>;
  \<open>watch("toString").arrayWatcher(cb)\<close>; one handle with a plain and an array callback;
  and \<open>watch("toString", "toString")(cb)\<close>.\<close>

definition watching_toString :: "(nat, nat, string) DataStore" where
  "watching_toString = run [Watch [''toString''], WatchFuncCall 0 ''cb''] empty_store"

definition array_toString :: "(nat, nat, string) DataStore" where
  "array_toString = run [Watch [''toString''], ArrayWatcher 0 ''cb''] empty_store"

definition two_on_toString :: "(nat, nat, string) DataStore" where
  "two_on_toString = run [Watch [''toString''], WatchFuncCall 0 ''cb1'', ArrayWatcher 0 ''cb2''] empty_store"


section \<open>Properties\<close>

lemma array_of_calls [simp]: "array_of L (s\<lparr>calls := x\<rparr>) = array_of L s"
  by (simp add: array_of_def get_def)

lemma call_of_calls [simp]: "call_of f name data (s\<lparr>calls := x\<rparr>) = call_of f name data s"
  by (simp add: call_of_def split: cb_kind.splits)

lemma fold_invoke:
  "fold (invoke name data) fs s =
     s\<lparr>calls := calls s @ map (\<lambda>f. (fid f, call_of f name data s)) (filter (\<lambda>f. fires f name) fs)\<rparr>"
  by (induction fs arbitrary: s) (simp_all add: invoke_def)

lemma publish_eq: "publish name data s = s\<lparr>calls := calls s @ notifications name data s\<rparr>"
  by (simp add: publish_def notifications_def fold_invoke)

lemma array_of_eq:
  "array_of L s = filter (\<lambda>v. v \<noteq> Undefined) (map (\<lambda>n. get n s) L)"
proof -
  have "fold (\<lambda>name arr. case get name s of Undefined \<Rightarrow> arr | data \<Rightarrow> arr @ [data]) L acc
        = acc @ filter (\<lambda>v. v \<noteq> Undefined) (map (\<lambda>n. get n s) L)" for acc
    by (induction L arbitrary: acc) (simp_all split: lookup.splits)
  from this [of "[]"] show ?thesis by (simp add: array_of_def)
qed

lemma set_fold_Set_add: "set (fold Set_add xs acc) = set acc \<union> set xs"
  by (induction xs arbitrary: acc) (auto simp: Set_add_def)

lemma distinct_fold_Set_add: "distinct acc \<Longrightarrow> distinct (fold Set_add xs acc)"
  by (induction xs arbitrary: acc) (auto simp: Set_add_def)

lemma set_Set_new [simp]: "set (Set_new xs) = set xs"
  by (simp add: Set_new_def set_fold_Set_add)

lemma distinct_Set_new [simp]: "distinct (Set_new xs)"
  by (simp add: Set_new_def distinct_fold_Set_add)

lemma split_on_not_Nil: "split_on sep cs \<noteq> []"
  by (induction cs) (simp_all split: list.splits)

lemma watchNames_not_Nil: "watchNames k \<noteq> []"
proof -
  obtain part parts where "split_on (CHR ''/'') k = part # parts"
    using split_on_not_Nil [of "CHR ''/''" k] by (cases "split_on (CHR ''/'') k") auto
  then show ?thesis
    by (simp add: watchNames_def Let_def)
qed

lemma find_watched_inherited:
  "''hasOwnProperty'' \<notin> fst ` set w \<Longrightarrow>
   find_watched w ns = Inr (List.find (\<lambda>name. name \<in> fst ` set w) ns)"
  by (induction ns) (simp_all add: hasOwnProperty_def)

lemma find_watched_shadowed:
  "''hasOwnProperty'' \<in> fst ` set w \<Longrightarrow> ns \<noteq> [] \<Longrightarrow> find_watched w ns = Inl TypeError"
  by (cases ns) (simp_all add: hasOwnProperty_def)

lemma filter_delete_key:
  "filter (\<lambda>(k, v). P k) (AList.delete k' d) = filter (\<lambda>(k, v). k \<noteq> k' \<and> P k) d"
  by (induction d) (auto simp: AList.delete_eq)

lemma gc_loop_inherited:
  assumes "''hasOwnProperty'' \<notin> fst ` set (store_d s)" and "''hasOwnProperty'' \<notin> fst ` set (store_w s)"
  shows "gc_loop ks s =
     (None, s\<lparr>store_d := filter (\<lambda>(k, v). k \<in> set ks \<longrightarrow> gc_keep (store_w s) k) (store_d s)\<rparr>)"
  using assms
proof (induction ks arbitrary: s)
  case Nil
  then show ?case by simp
next
  case (Cons k ks)
  show ?case
  proof (cases "k \<in> fst ` set (store_d s)")
    case False
    have "filter (\<lambda>(k', v). k' \<in> set (k # ks) \<longrightarrow> gc_keep (store_w s) k') (store_d s)
        = filter (\<lambda>(k', v). k' \<in> set ks \<longrightarrow> gc_keep (store_w s) k') (store_d s)"
      using False by (intro filter_cong) force+
    then show ?thesis
      using False Cons.prems by (simp add: hasOwnProperty_def Cons.IH)
  next
    case True
    show ?thesis
    proof (cases "gc_keep (store_w s) k")
      case keep: True
      have "filter (\<lambda>(k', v). k' \<in> set (k # ks) \<longrightarrow> gc_keep (store_w s) k') (store_d s)
          = filter (\<lambda>(k', v). k' \<in> set ks \<longrightarrow> gc_keep (store_w s) k') (store_d s)"
        using keep by (intro filter_cong) auto
      then show ?thesis
        using True keep Cons.prems
        by (simp add: hasOwnProperty_def find_watched_inherited gc_keep_def [symmetric] Cons.IH)
    next
      case drop: False
      let ?s = "s\<lparr>store_d := AList.delete k (store_d s)\<rparr>"
      have a: "''hasOwnProperty'' \<notin> fst ` set (store_d ?s)"
        using Cons.prems(1) by (auto simp: AList.delete_eq)
      have b: "''hasOwnProperty'' \<notin> fst ` set (store_w ?s)"
        using Cons.prems(2) by simp
      have "filter (\<lambda>(k', v). k' \<in> set ks \<longrightarrow> gc_keep (store_w s) k') (AList.delete k (store_d s))
          = filter (\<lambda>(k', v). k' \<in> set (k # ks) \<longrightarrow> gc_keep (store_w s) k') (store_d s)"
        unfolding filter_delete_key using drop by (intro filter_cong) auto
      then show ?thesis
        using True drop Cons.prems
        by (simp add: hasOwnProperty_def find_watched_inherited gc_keep_def [symmetric] Cons.IH [OF a b])
    qed
  qed
qed

lemma garbageCollect_inherited:
  assumes "''hasOwnProperty'' \<notin> fst ` set (store_d s)" and "''hasOwnProperty'' \<notin> fst ` set (store_w s)"
  shows "garbageCollect s = (None, s\<lparr>store_d := filter (\<lambda>(k, v). gc_keep (store_w s) k) (store_d s)\<rparr>)"
proof -
  have "filter (\<lambda>(k, v). k \<in> set (map fst (store_d s)) \<longrightarrow> gc_keep (store_w s) k) (store_d s)
      = filter (\<lambda>(k, v). gc_keep (store_w s) k) (store_d s)"
    by (rule filter_cong) force+
  then show ?thesis
    by (simp add: garbageCollect_def gc_loop_inherited [OF assms])
qed

lemma garbageCollect_shadowed:
  assumes "store_d s \<noteq> []"
    and "''hasOwnProperty'' \<in> fst ` set (store_d s) \<or> ''hasOwnProperty'' \<in> fst ` set (store_w s)"
  shows "garbageCollect s = (Some TypeError, s)"
proof -
  obtain k v rest where d: "store_d s = (k, v) # rest"
    using assms(1) by (cases "store_d s") auto
  show ?thesis
  proof (cases "''hasOwnProperty'' \<in> fst ` set (store_d s)")
    case True
    then show ?thesis
      by (simp add: garbageCollect_def d hasOwnProperty_def)
  next
    case False
    then have w: "''hasOwnProperty'' \<in> fst ` set (store_w s)"
      using assms(2) by simp
    have "hasOwnProperty (store_d s) k = Inr True"
      using False by (simp add: hasOwnProperty_def d)
    then show ?thesis
      using find_watched_shadowed [OF w watchNames_not_Nil, of k]
      by (simp add: garbageCollect_def d)
  qed
qed

lemma garbageCollect_empty: "store_d s = [] \<Longrightarrow> garbageCollect s = (None, s)"
  by (simp add: garbageCollect_def)

lemma garbageCollect_cases:
  obtains (raises) "garbageCollect s = (Some TypeError, s)"
  | (sweeps) "garbageCollect s = (None, s\<lparr>store_d := filter (\<lambda>(k, v). gc_keep (store_w s) k) (store_d s)\<rparr>)"
proof (cases "store_d s = []")
  case True
  then have "garbageCollect s = (None, s\<lparr>store_d := filter (\<lambda>(k, v). gc_keep (store_w s) k) (store_d s)\<rparr>)"
    by (simp add: garbageCollect_empty)
  then show ?thesis by (rule sweeps)
next
  case False
  show ?thesis
  proof (cases "''hasOwnProperty'' \<in> fst ` set (store_d s) \<or> ''hasOwnProperty'' \<in> fst ` set (store_w s)")
    case True
    then show ?thesis
      using garbageCollect_shadowed [OF False] raises by blast
  next
    case False
    then show ?thesis
      using garbageCollect_inherited [of s] sweeps by blast
  qed
qed

lemma garbageCollect_frame:
  "store_w (snd (garbageCollect s)) = store_w s"
  "store_cbs (snd (garbageCollect s)) = store_cbs s"
  "heap (snd (garbageCollect s)) = heap s"
  "fresh (snd (garbageCollect s)) = fresh s"
  "calls (snd (garbageCollect s)) = calls s"
  by (cases s rule: garbageCollect_cases; simp)+

lemma filter_upt_Suc:
  "filter P [0..<Suc n] = (if P 0 then [0] else []) @ map Suc (filter (\<lambda>i. P (Suc i)) [0..<n])"
proof -
  have "[0..<Suc n] = 0 # map Suc [0..<n]"
    by (simp add: upt_conv_Cons map_Suc_upt del: upt_Suc)
  then show ?thesis
    by (simp add: filter_map comp_def del: upt_Suc)
qed

lemma prefixes_from_spec:
  "map (\<lambda>i. p @ take i cs) (filter (\<lambda>i. cs ! i = CHR ''/'') [0..<length cs]) @ [p @ cs]
     = prefixes_from p cs"
proof (induction cs arbitrary: p)
  case Nil
  then show ?case by simp
next
  case (Cons c cs)
  have "map (\<lambda>i. p @ take i (c # cs)) (filter (\<lambda>i. (c # cs) ! i = CHR ''/'') [0..<length (c # cs)])
      = (if c = CHR ''/'' then [p] else [])
        @ map (\<lambda>i. (p @ [c]) @ take i cs) (filter (\<lambda>i. cs ! i = CHR ''/'') [0..<length cs])"
    by (simp add: filter_upt_Suc comp_def del: upt_Suc)
  then show ?case
    using Cons.IH [of "p @ [c]"] by simp
qed

lemma spec_ancestor_prefixes_eq: "spec_ancestor_prefixes N = prefixes_from [] N"
  using prefixes_from_spec [of "[]" N] by (simp add: spec_ancestor_prefixes_def)

lemma watchNames_map_prefixes:
  assumes "split_on (CHR ''/'') cs = part # parts"
    and "(if prev \<noteq> [] then prev @ ''/'' @ x else x) \<noteq> []"
  shows "watchNames_map prev ((x @ part) # parts)
       = prefixes_from (if prev \<noteq> [] then prev @ ''/'' @ x else x) cs"
  using assms
proof (induction cs arbitrary: prev x part parts)
  case Nil
  then show ?case by simp
next
  case (Cons c cs)
  define base where "base = (if prev \<noteq> [] then prev @ ''/'' @ x else x)"
  have base: "base \<noteq> []"
    using Cons.prems(2) by (simp add: base_def)
  obtain part' parts' where sp: "split_on (CHR ''/'') cs = part' # parts'"
    using split_on_not_Nil [of "CHR ''/''" cs] by (cases "split_on (CHR ''/'') cs") auto
  show ?case
  proof (cases "c = CHR ''/''")
    case True
    then have pp: "part = []" "parts = part' # parts'"
      using Cons.prems(1) sp by simp_all
    have "watchNames_map base (([] @ part') # parts')
        = prefixes_from (if base \<noteq> [] then base @ ''/'' @ [] else []) cs"
      by (rule Cons.IH [OF sp]) (simp add: base)
    then have "watchNames_map base (part' # parts') = prefixes_from (base @ ''/'') cs"
      using base by simp
    then show ?thesis
      using True pp by (simp add: base_def [symmetric] Let_def)
  next
    case False
    then have pp: "part = c # part'" "parts = parts'"
      using Cons.prems(1) sp by simp_all
    have "watchNames_map prev (((x @ [c]) @ part') # parts')
        = prefixes_from (if prev \<noteq> [] then prev @ ''/'' @ (x @ [c]) else x @ [c]) cs"
      by (rule Cons.IH [OF sp]) simp
    moreover have "(if prev \<noteq> [] then prev @ ''/'' @ (x @ [c]) else x @ [c]) = base @ [c]"
      by (simp add: base_def)
    ultimately show ?thesis
      using False pp by (simp add: base_def [symmetric])
  qed
qed

lemma watchNames_spec:
  assumes "N \<noteq> []" "hd N \<noteq> CHR ''/''"
  shows "watchNames N = spec_ancestor_prefixes N"
proof -
  obtain c cs where N: "N = c # cs" and c: "c \<noteq> CHR ''/''"
    using assms by (cases N) auto
  obtain part parts where sp: "split_on (CHR ''/'') cs = part # parts"
    using split_on_not_Nil [of "CHR ''/''" cs] by (cases "split_on (CHR ''/'') cs") auto
  have "watchNames_map [] ((c # part) # parts) = prefixes_from [c] cs"
    using watchNames_map_prefixes [OF sp, of "[]" "[c]"] by simp
  then have "watchNames N = prefixes_from [c] cs"
    using c sp by (simp add: watchNames_def N)
  then show ?thesis
    using c by (simp add: spec_ancestor_prefixes_eq N)
qed

lemma prefixes_from_not_empty: "p \<noteq> [] \<Longrightarrow> [] \<notin> set (prefixes_from p cs)"
  by (induction cs arbitrary: p) simp_all

lemma spec_ancestor_prefixes_not_empty:
  assumes "N \<noteq> []" "hd N \<noteq> CHR ''/''"
  shows "[] \<notin> set (spec_ancestor_prefixes N)"
proof -
  obtain c cs where N: "N = c # cs" and c: "c \<noteq> CHR ''/''"
    using assms by (cases N) auto
  have "[] \<notin> set (prefixes_from [c] cs)"
    by (rule prefixes_from_not_empty) simp
  then show ?thesis
    using c by (simp add: spec_ancestor_prefixes_eq N)
qed

lemma truthy_find: "[] \<notin> set xs \<Longrightarrow> truthy (List.find P xs) \<longleftrightarrow> (\<exists>x \<in> set xs. P x)"
  by (induction xs) auto

lemma plain_matches_spec:
  assumes "N \<noteq> []" "hd N \<noteq> CHR ''/''"
  shows "plain_matches S N \<longleftrightarrow> (\<exists>p \<in> set (spec_ancestor_prefixes N). p \<in> set S)"
  using spec_ancestor_prefixes_not_empty [OF assms]
  by (simp add: plain_matches_def watchNames_spec [OF assms] truthy_find)

lemma gc_keep_spec:
  assumes "N \<noteq> []" "hd N \<noteq> CHR ''/''"
  shows "gc_keep w N \<longleftrightarrow> (\<exists>p \<in> set (spec_ancestor_prefixes N). p \<in> fst ` set w)"
  using spec_ancestor_prefixes_not_empty [OF assms]
  by (simp add: gc_keep_def watchNames_spec [OF assms] truthy_find)


lemma delete_absent: "map_of al k = None \<Longrightarrow> AList.delete k al = al"
  by (simp add: map_of_eq_None_iff)

lemma gc_keep_Nil [simp]: "\<not> gc_keep [] k"
proof -
  have "List.find (\<lambda>name. False) xs = None" for xs :: "name list"
    by (induction xs) simp_all
  then show ?thesis
    by (simp add: gc_keep_def)
qed

lemma self_shape: "\<exists>d c. s = s\<lparr>store_d := d, calls := c\<rparr>"
  by (rule exI [of _ "store_d s"], rule exI [of _ "calls s"]) simp

lemma add_item_shape: "\<exists>e d c. add_item r s = (e, s\<lparr>store_d := d, calls := c\<rparr>)"
proof -
  have stay: "\<exists>e' d c. (e, s) = (e', s\<lparr>store_d := d, calls := c\<rparr>)" for e :: "error option"
    using self_shape [of s] by auto
  have move: "\<exists>e' d c. (e, publish n x (s\<lparr>store_d := d0\<rparr>)) = (e', s\<lparr>store_d := d, calls := c\<rparr>)"
    for e :: "error option" and n x d0
    by (simp add: publish_eq) blast
  show ?thesis
  proof (cases "get (getName r) s")
    case Undefined
    then show ?thesis
      using move by (simp add: add_item_def Let_def)
  next
    case (Own stored)
    then show ?thesis
      using move stay by (cases "isResourceEqual r stored") (simp_all add: add_item_def Let_def)
  next
    case (Inherited m)
    then show ?thesis
      using stay by (simp add: add_item_def Let_def)
  qed
qed

lemma add_forEach_shape: "\<exists>e d c. add_forEach rs s = (e, s\<lparr>store_d := d, calls := c\<rparr>)"
proof (induction rs arbitrary: s)
  case Nil
  then show ?case
    using self_shape [of s] by auto
next
  case (Cons r rs)
  obtain e d c where step: "add_item r s = (e, s\<lparr>store_d := d, calls := c\<rparr>)"
    using add_item_shape by blast
  show ?case
  proof (cases e)
    case None
    obtain e' d' c' where rest: "add_forEach rs (s\<lparr>store_d := d, calls := c\<rparr>)
        = (e', s\<lparr>store_d := d, calls := c\<rparr>\<lparr>store_d := d', calls := c'\<rparr>)"
      using Cons.IH by blast
    then show ?thesis
      using None step by simp blast
  next
    case (Some err)
    then show ?thesis
      using step by simp blast
  qed
qed

lemma add_shape:
  "\<exists>d c. snd (add items s) = s\<lparr>store_d := d, calls := c\<rparr>
       \<or> snd (add items s) = s\<lparr>store_d := d, calls := c,
            heap := heap s @ [\<lparr>namesArr = map getName items, names = Set_new (map getName items), cbs = []\<rparr>]\<rparr>"
proof -
  obtain e d c where step: "add_forEach items s = (e, s\<lparr>store_d := d, calls := c\<rparr>)"
    using add_forEach_shape by blast
  show ?thesis
    by (cases e) (auto simp: add_def step watch_def)
qed

lemma add_frame:
  "store_w (snd (add items s)) = store_w s"
  "store_cbs (snd (add items s)) = store_cbs s"
  "fresh (snd (add items s)) = fresh s"
proof -
  obtain d c where "snd (add items s) = s\<lparr>store_d := d, calls := c\<rparr>
       \<or> snd (add items s) = s\<lparr>store_d := d, calls := c,
            heap := heap s @ [\<lparr>namesArr = map getName items, names = Set_new (map getName items), cbs = []\<rparr>]\<rparr>"
    using add_shape by blast
  then show "store_w (snd (add items s)) = store_w s" "store_cbs (snd (add items s)) = store_cbs s"
    "fresh (snd (add items s)) = fresh s"
    by auto
qed

lemma add_item_same:
  assumes "get (getName r') s = Own r" "toObject r' = toObject r"
  shows "add_item r' s = (None, s)"
  using assms by (simp add: add_item_def isResourceEqual_def)

lemma garbageCollect_silent: "calls (snd (garbageCollect s)) = calls s"
  by (rule garbageCollect_frame)

lemma garbageCollect_two_handles:
  "fst (garbageCollect (unsubscribe 0 two_handles)) = None
   \<and> get ''n'' (snd (garbageCollect (unsubscribe 0 two_handles))) = Own (res ''n'' 1 0)
   \<and> fst (garbageCollect (unsubscribe 1 (unsubscribe 0 two_handles))) = None
   \<and> get ''n'' (snd (garbageCollect (unsubscribe 1 (unsubscribe 0 two_handles)))) = Undefined
   \<and> calls (snd (garbageCollect (unsubscribe 1 (unsubscribe 0 two_handles)))) = calls two_handles"
  by code_simp



lemma call_of_cong: "store_d t = store_d s \<Longrightarrow> call_of f n data t = call_of f n data s"
  by (simp add: call_of_def array_of_def get_def split: cb_kind.splits)

lemma notifications_cong:
  "store_d t = store_d s \<Longrightarrow> store_cbs t = store_cbs s \<Longrightarrow> notifications n data t = notifications n data s"
  by (simp add: notifications_def call_of_cong [of t s])

lemma filter_same_fid:
  assumes "distinct (map fid fs)" "f \<in> set fs"
  shows "filter (\<lambda>g. fid g = fid f) fs = [f]"
  using assms
proof (induction fs)
  case Nil
  then show ?case by simp
next
  case (Cons g fs)
  show ?case
  proof (cases "g = f")
    case True
    then have nf: "fid f \<notin> fid ` set fs"
      using Cons.prems(1) by simp
    have "\<forall>x \<in> set fs. fid x \<noteq> fid f"
      using nf by (metis imageI)
    then have "filter (\<lambda>g. fid g = fid f) fs = []"
      unfolding filter_empty_conv by blast
    then show ?thesis
      using True by simp
  next
    case False
    then have "f \<in> set fs" "fid g \<noteq> fid f"
      using Cons.prems by auto
    then show ?thesis
      using Cons.IH Cons.prems(1) by simp
  qed
qed

lemma count_tagged:
  assumes "distinct (map fid fs)" "f \<in> set fs"
  shows "length (filter (\<lambda>e. fst e = fid f) (map (\<lambda>g. (fid g, X g)) (filter P fs)))
       = (if P f then 1 else 0)"
proof -
  have "length (filter (\<lambda>e. fst e = fid f) (map (\<lambda>g. (fid g, X g)) (filter P fs)))
      = length (filter P (filter (\<lambda>g. fid g = fid f) fs))"
    by (simp add: filter_map comp_def conj_commute)
  then show ?thesis
    by (simp add: filter_same_fid [OF assms])
qed

lemma plain_matches_set: "set A = set B \<Longrightarrow> plain_matches A name = plain_matches B name"
  by (simp add: plain_matches_def)

lemma arrayWatcher_closure:
  fixes s :: "('o, 'z, 'c) DataStore"
  shows "let f = \<lparr>fid = fresh s, kind = Array, cnames = Set_new L, cnamesArr = L, cb = c\<rparr> in
     f \<in> set (store_cbs (arrayWatcher (fst (watch L s)) c (snd (watch L s))))
   \<and> (\<forall>name. fires f name \<longleftrightarrow> name \<in> set L)
   \<and> (\<forall>name data (t :: ('o, 'z, 'c) DataStore). invoke name data f t =
        (if name \<in> set L
         then t\<lparr>calls := calls t @
                [(fresh s, ArrayCall c (filter (\<lambda>v. v \<noteq> Undefined) (map (\<lambda>n. get n t) L)) name data)]\<rparr>
         else t))"
proof -
  define f where "f = \<lparr>fid = fresh s, kind = Array, cnames = Set_new L, cnamesArr = L, cb = c\<rparr>"
  have "f \<in> set (store_cbs (arrayWatcher (fst (watch L s)) c (snd (watch L s))))"
    by (simp add: arrayWatcher_def watch_def f_def Let_def Set_add_def)
  moreover have fires: "fires f name \<longleftrightarrow> name \<in> set L" for name
    by (simp add: fires_def f_def)
  moreover have "invoke name data f t =
        (if name \<in> set L
         then t\<lparr>calls := calls t @
                [(fresh s, ArrayCall c (filter (\<lambda>v. v \<noteq> Undefined) (map (\<lambda>n. get n t) L)) name data)]\<rparr>
         else t)" for name data and t :: "('o, 'z, 'c) DataStore"
    unfolding invoke_def call_of_def array_of_eq by (simp add: fires) (simp add: f_def)
  ultimately show ?thesis
    by (simp add: f_def [symmetric] Let_def)
qed

lemma array_of_entries:
  assumes "set L \<inter> set Object_prototype = {}"
  shows "array_of L t = map Own (List.map_filter (map_of (store_d t)) L)"
  using assms unfolding array_of_eq
  by (induction L) (auto simp: get_def get_prop_def split: option.splits)

lemma arrayWatcher_scenario:
  "calls (del ''x'' array_xy) = calls array_xy @ [(0, ArrayCall ''cb'' [Own (res ''y'' 2 0)] ''x'' None)]
   \<and> calls (del ''x/z'' array_xy) = calls array_xy"
  by code_simp

lemma add_replacement_publishes:
  assumes "get (getName r2) s = Own r" and "toObject r2 \<noteq> toObject r"
  shows "let t = snd (add [r2] s); new = notifications (getName r2) (Some r2) t in
     fst (add [r2] s) = Inr (length (heap s))
   \<and> get (getName r2) t = Own r2
   \<and> store_cbs t = store_cbs s
   \<and> calls t = calls s @ new
   \<and> new = map (\<lambda>f. (fid f, call_of f (getName r2) (Some r2) t))
               (filter (\<lambda>f. fires f (getName r2)) (store_cbs s))
   \<and> (distinct (map fid (store_cbs s)) \<longrightarrow>
        (\<forall>f \<in> set (store_cbs s).
           length (filter (\<lambda>e. fst e = fid f) new) = (if fires f (getName r2) then 1 else 0)))"
proof -
  define u where "u = s\<lparr>store_d := AList.update (getName r2) r2 (store_d s)\<rparr>"
  define t where "t = snd (add [r2] s)"
  have step: "add_item r2 s = (None, publish (getName r2) (Some r2) u)"
    using assms by (simp add: add_item_def isResourceEqual_def u_def Let_def)
  have h: "fst (add [r2] s) = Inr (length (heap s))"
    by (simp add: add_def step watch_def publish_eq u_def)
  have t_eq: "t = snd (watch [getName r2] (publish (getName r2) (Some r2) u))"
    by (simp add: t_def add_def step)
  have d: "store_d t = store_d u" and c: "store_cbs t = store_cbs s"
    by (simp_all add: t_eq watch_def publish_eq u_def)
  have n: "notifications (getName r2) (Some r2) t = notifications (getName r2) (Some r2) u"
    by (rule notifications_cong) (simp_all add: d c u_def)
  have g: "get (getName r2) t = Own r2"
    by (simp add: get_def get_prop_def d u_def update_conv')
  have k: "calls t = calls s @ notifications (getName r2) (Some r2) t"
    unfolding n by (simp add: t_eq watch_def publish_eq u_def)
  have m: "notifications (getName r2) (Some r2) t
      = map (\<lambda>f. (fid f, call_of f (getName r2) (Some r2) t))
            (filter (\<lambda>f. fires f (getName r2)) (store_cbs s))"
    by (simp add: notifications_def c)
  have once: "length (filter (\<lambda>e. fst e = fid f) (notifications (getName r2) (Some r2) t))
      = (if fires f (getName r2) then 1 else 0)"
    if "distinct (map fid (store_cbs s))" "f \<in> set (store_cbs s)" for f
    unfolding m by (rule count_tagged [OF that])
  show ?thesis
    unfolding t_def [symmetric] Let_def
    using h g c k m once by blast
qed

lemma array_of_replicate: "get x t = Own r \<Longrightarrow> array_of (replicate m x) t = replicate m (Own r)"
  by (induction m) (simp_all add: array_of_eq)

lemma watch_duplicates:
  fixes s :: "('o, 'z, 'c) DataStore"
  shows "let h = fst (watch L s); s1 = snd (watch L s) in
     namesArr (heap s1 ! h) = L
   \<and> names (heap s1 ! h) = Set_new L \<and> distinct (Set_new L) \<and> set (Set_new L) = set L
   \<and> (\<forall>c :: 'c. store_w (watchFunc_call h c s1) = fold incr (Set_new L) (store_w s))
   \<and> (\<forall>c :: 'c. store_w (arrayWatcher h c s1) = fold incr (Set_new L) (store_w s))
   \<and> (\<forall>c :: 'c. \<lparr>fid = fresh s, kind = Plain, cnames = Set_new L, cnamesArr = L, cb = c\<rparr>
                 \<in> set (store_cbs (watchFunc_call h c s1)))
   \<and> (\<forall>c :: 'c. \<lparr>fid = fresh s, kind = Array, cnames = Set_new L, cnamesArr = L, cb = c\<rparr>
                 \<in> set (store_cbs (arrayWatcher h c s1)))
   \<and> (\<forall>(t :: ('o, 'z, 'c) DataStore) x r m.
         get x t = Own r \<longrightarrow> array_of (replicate m x) t = replicate m (Own r))
   \<and> (\<forall>name. plain_matches (Set_new L) name = plain_matches (remdups L) name)"
proof -
  have "plain_matches (Set_new L) name = plain_matches (remdups L) name" for name
    by (rule plain_matches_set) simp
  then show ?thesis
    by (simp add: Let_def watch_def watchFunc_call_def arrayWatcher_def Set_add_def array_of_replicate)
qed

lemma register_eq:
  "register k h c s =
     (if h < length (heap s) then
        (let wfn = heap s ! h;
             f = \<lparr>fid = fresh s, kind = k, cnames = names wfn, cnamesArr = namesArr wfn, cb = c\<rparr>
         in s\<lparr>heap := (heap s)[h := wfn\<lparr>cbs := Set_add f (cbs wfn)\<rparr>],
              store_cbs := Set_add f (store_cbs s),
              store_w := fold incr (names wfn) (store_w s),
              fresh := Suc (fresh s)\<rparr>)
      else s)"
  by (cases k) (simp_all add: register_def watchFunc_call_def arrayWatcher_def)

lemma proto_name_neq: "n \<notin> set Object_prototype \<Longrightarrow> n \<noteq> ''__proto__''"
  by (auto simp: Object_prototype_def)

lemma ordinary_map_of:
  assumes "ordinary_counts w"
  shows "map_of w n = None \<or> (\<exists>c. map_of w n = Some (Num c) \<and> c \<noteq> 0 \<and> n \<notin> set Object_prototype)"
  using assms unfolding ordinary_counts_def by (cases "map_of w n") auto

lemma count_of_ordinary:
  assumes "ordinary_counts w"
  shows "count_of w n = (case map_of w n of Some (Num c) \<Rightarrow> c | _ \<Rightarrow> 0)"
  using ordinary_map_of [OF assms, of n]
  by (auto simp: count_of_def get_prop_def)

lemma incr_ordinary:
  assumes "ordinary_counts w" "n \<notin> set Object_prototype"
  shows "incr n w = AList.update n (Num (count_of w n + 1)) w"
  using ordinary_map_of [OF assms(1), of n] assms(2) proto_name_neq [OF assms(2)]
  by (auto simp: incr_def set_count_def count_of_def get_prop_def)

lemma decr_ordinary:
  assumes "ordinary_counts w" "n \<notin> set Object_prototype"
  shows "decr n w = (if count_of w n = 1 then AList.delete n w
                     else AList.update n (Num (count_of w n - 1)) w)"
  using ordinary_map_of [OF assms(1), of n] assms(2) proto_name_neq [OF assms(2)]
  by (auto simp: decr_def set_count_def count_of_def get_prop_def Let_def update_conv'
        AList.delete_update_same)

lemma ordinary_update:
  "ordinary_counts w \<Longrightarrow> n \<notin> set Object_prototype \<Longrightarrow> c \<noteq> 0 \<Longrightarrow> ordinary_counts (AList.update n (Num c) w)"
  unfolding ordinary_counts_def by (simp add: update_conv')

lemma ordinary_delete: "ordinary_counts w \<Longrightarrow> ordinary_counts (AList.delete n w)"
  unfolding ordinary_counts_def by (simp add: delete_conv')

lemma count_of_update:
  assumes "ordinary_counts w" "n \<notin> set Object_prototype" "c \<noteq> 0"
  shows "count_of (AList.update n (Num c) w) m = (if m = n then c else count_of w m)"
  using assms(2) by (simp add: count_of_def get_prop_def update_conv')

lemma count_of_delete:
  assumes "n \<notin> set Object_prototype"
  shows "count_of (AList.delete n w) m = (if m = n then 0 else count_of w m)"
  using assms by (simp add: count_of_def get_prop_def delete_conv')

lemma count_of_nonneg_incr:
  assumes "ordinary_counts w" "n \<notin> set Object_prototype" "0 \<le> count_of w n"
  shows "ordinary_counts (incr n w)"
    and "count_of (incr n w) m = count_of w m + (if m = n then 1 else 0)"
proof -
  have ne: "count_of w n + 1 \<noteq> 0"
    using assms(3) by simp
  show "ordinary_counts (incr n w)"
    unfolding incr_ordinary [OF assms(1,2)] by (rule ordinary_update [OF assms(1,2) ne])
  show "count_of (incr n w) m = count_of w m + (if m = n then 1 else 0)"
    unfolding incr_ordinary [OF assms(1,2)] by (simp add: count_of_update [OF assms(1,2) ne])
qed

lemma count_of_decr:
  assumes "ordinary_counts w" "n \<notin> set Object_prototype"
  shows "ordinary_counts (decr n w)"
    and "count_of (decr n w) m = count_of w m - (if m = n then 1 else 0)"
proof -
  show "ordinary_counts (decr n w)"
    unfolding decr_ordinary [OF assms]
    by (simp add: ordinary_delete [OF assms(1)] ordinary_update [OF assms])
  show "count_of (decr n w) m = count_of w m - (if m = n then 1 else 0)"
    unfolding decr_ordinary [OF assms]
    by (cases "count_of w n = 1") (simp_all add: count_of_delete [OF assms(2)] count_of_update [OF assms])
qed

lemma fold_incr_ordinary:
  assumes "ordinary_counts w" "set ns \<inter> set Object_prototype = {}" "\<forall>m. 0 \<le> count_of w m"
  shows "ordinary_counts (fold incr ns w) \<and> (\<forall>m. count_of (fold incr ns w) m = count_of w m + int (count_list ns m))"
  using assms
proof (induction ns arbitrary: w)
  case Nil
  then show ?case by simp
next
  case (Cons n ns)
  have n: "n \<notin> set Object_prototype"
    using Cons.prems(2) by auto
  have nn: "0 \<le> count_of w n"
    using Cons.prems(3) by simp
  have a: "ordinary_counts (incr n w)"
    and b: "\<And>m. count_of (incr n w) m = count_of w m + (if m = n then 1 else 0)"
    using count_of_nonneg_incr [OF Cons.prems(1) n nn] by simp_all
  have c: "\<forall>m. 0 \<le> count_of (incr n w) m"
    using Cons.prems(3) by (simp add: b)
  have rest: "set ns \<inter> set Object_prototype = {}"
    using Cons.prems(2) by auto
  show ?case
    using Cons.IH [OF a rest c] by (simp add: b)
qed

lemma fold_decr_ordinary:
  assumes "ordinary_counts w" "set ns \<inter> set Object_prototype = {}"
  shows "ordinary_counts (fold decr ns w) \<and> (\<forall>m. count_of (fold decr ns w) m = count_of w m - int (count_list ns m))"
  using assms
proof (induction ns arbitrary: w)
  case Nil
  then show ?case by simp
next
  case (Cons n ns)
  have n: "n \<notin> set Object_prototype"
    using Cons.prems(2) by auto
  have a: "ordinary_counts (decr n w)"
    and b: "\<And>m. count_of (decr n w) m = count_of w m - (if m = n then 1 else 0)"
    using count_of_decr [OF Cons.prems(1) n] by simp_all
  have rest: "set ns \<inter> set Object_prototype = {}"
    using Cons.prems(2) by auto
  show ?case
    using Cons.IH [OF a rest] by (simp add: b)
qed

lemma funpow_decr_ordinary:
  assumes "ordinary_counts w" "set ns \<inter> set Object_prototype = {}"
  shows "ordinary_counts (((fold decr ns) ^^ k) w)
       \<and> (\<forall>m. count_of (((fold decr ns) ^^ k) w) m = count_of w m - int k * int (count_list ns m))"
  using assms(1)
proof (induction k arbitrary: w)
  case 0
  then show ?case by simp
next
  case (Suc k)
  have a: "ordinary_counts (fold decr ns w)"
    and b: "\<And>m. count_of (fold decr ns w) m = count_of w m - int (count_list ns m)"
    using fold_decr_ordinary [OF Suc.prems assms(2)] by simp_all
  show ?case
    using Suc.IH [OF a] by (simp add: funpow_swap1 b algebra_simps)
qed

lemma filter_removeAll:
  "filter (\<lambda>g. g \<notin> set fs) (removeAll f xs) = filter (\<lambda>g. g \<noteq> f \<and> g \<notin> set fs) xs"
  by (induction xs) auto

lemma fold_unsubscribe_cb:
  "h < length (heap s) \<Longrightarrow>
   fold (unsubscribe_cb h) fs s =
     s\<lparr>heap := (heap s)[h := (heap s ! h)\<lparr>cbs := filter (\<lambda>f. f \<notin> set fs) (cbs (heap s ! h))\<rparr>],
       store_cbs := filter (\<lambda>f. f \<notin> set fs) (store_cbs s),
       store_w := ((fold decr (names (heap s ! h))) ^^ length fs) (store_w s)\<rparr>"
proof (induction fs arbitrary: s)
  case Nil
  then show ?case by simp
next
  case (Cons f fs)
  let ?s = "unsubscribe_cb h f s"
  have len: "h < length (heap ?s)"
    using Cons.prems by (simp add: unsubscribe_cb_def Let_def)
  show ?case
    using Cons.prems
    by (simp add: Cons.IH [OF len] funpow_swap1)
       (simp add: unsubscribe_cb_def Let_def Set_delete_def filter_removeAll conj_commute)
qed

lemma unsubscribe_eq:
  "h < length (heap s) \<Longrightarrow>
   unsubscribe h s =
     s\<lparr>heap := (heap s)[h := (heap s ! h)\<lparr>cbs := []\<rparr>],
       store_cbs := filter (\<lambda>f. f \<notin> set (cbs (heap s ! h))) (store_cbs s),
       store_w := ((fold decr (names (heap s ! h))) ^^ length (cbs (heap s ! h))) (store_w s)\<rparr>"
  by (simp add: unsubscribe_def fold_unsubscribe_cb)

lemma store_inv_new: "store_inv DataStore_new"
  by (simp add: store_inv_def DataStore_new_def count_of_def get_prop_def ordinary_counts_def)

lemma store_inv_cong:
  "store_cbs t = store_cbs s \<Longrightarrow> store_w t = store_w s \<Longrightarrow> heap t = heap s \<Longrightarrow> fresh t = fresh s
   \<Longrightarrow> store_d t = store_d s \<Longrightarrow> store_inv t = store_inv s"
  by (simp add: store_inv_def)

lemma store_inv_publish [simp]: "store_inv (publish n data s) = store_inv s"
  by (rule store_inv_cong) (simp_all add: publish_eq)

lemma store_inv_store_d:
  "store_inv s \<Longrightarrow> fst ` set d \<inter> set Object_prototype = {} \<Longrightarrow> store_inv (s\<lparr>store_d := d\<rparr>)"
  by (simp add: store_inv_def)

lemma store_inv_entries: "store_inv s \<Longrightarrow> fst ` set (store_d s) \<inter> set Object_prototype = {}"
  by (simp add: store_inv_def)

lemma store_inv_del: "store_inv s \<Longrightarrow> store_inv (del n s)"
proof -
  assume inv: "store_inv s"
  have "fst ` set (AList.delete n (store_d s)) \<subseteq> fst ` set (store_d s)"
    by (auto simp: AList.delete_eq)
  then have "fst ` set (AList.delete n (store_d s)) \<inter> set Object_prototype = {}"
    using store_inv_entries [OF inv] by blast
  then show ?thesis
    unfolding del_def store_inv_publish by (rule store_inv_store_d [OF inv])
qed

lemma store_inv_add_item:
  assumes "store_inv s"
  shows "store_inv (snd (add_item r s)) \<and> heap (snd (add_item r s)) = heap s
       \<and> (fst (add_item r s) = None \<longrightarrow> getName r \<notin> set Object_prototype)"
proof -
  have ok: "fst ` set (store_d s) \<inter> set Object_prototype = {}"
    by (rule store_inv_entries [OF assms])
  have upd: "store_inv (publish (getName r) (Some r) (s\<lparr>store_d := AList.update (getName r) r (store_d s)\<rparr>))"
    if "getName r \<notin> set Object_prototype"
  proof -
    have "fst ` set (AList.update (getName r) r (store_d s)) = insert (getName r) (fst ` set (store_d s))"
      by (simp add: update_keys flip: set_map) auto
    then have "fst ` set (AList.update (getName r) r (store_d s)) \<inter> set Object_prototype = {}"
      using ok that by simp
    then show ?thesis
      unfolding store_inv_publish by (rule store_inv_store_d [OF assms])
  qed
  show ?thesis
  proof (cases "get (getName r) s")
    case Undefined
    then have "getName r \<notin> set Object_prototype"
      by (auto simp: get_def get_prop_def split: option.splits if_splits)
    then show ?thesis
      using Undefined upd by (simp add: add_item_def Let_def publish_eq)
  next
    case (Own stored)
    then have "getName r \<in> fst ` set (store_d s)"
      by (auto simp: get_def get_prop_def split: option.splits if_splits dest!: map_of_SomeD intro: rev_image_eqI)
    then have "getName r \<notin> set Object_prototype"
      using ok by blast
    then show ?thesis
      using Own upd assms by (simp add: add_item_def Let_def publish_eq)
  next
    case (Inherited m)
    then show ?thesis
      using assms by (simp add: add_item_def Let_def)
  qed
qed

lemma store_inv_add_forEach:
  assumes "store_inv s"
  shows "store_inv (snd (add_forEach rs s)) \<and> heap (snd (add_forEach rs s)) = heap s
       \<and> (fst (add_forEach rs s) = None \<longrightarrow> set (map getName rs) \<inter> set Object_prototype = {})"
  using assms
proof (induction rs arbitrary: s)
  case Nil
  then show ?case by simp
next
  case (Cons r rs)
  obtain e t where step: "add_item r s = (e, t)"
    by (cases "add_item r s")
  have t: "store_inv t" "heap t = heap s" "e = None \<longrightarrow> getName r \<notin> set Object_prototype"
    using store_inv_add_item [OF Cons.prems, of r] by (simp_all add: step)
  show ?case
  proof (cases e)
    case None
    then show ?thesis
      using Cons.IH [OF t(1)] t by (simp add: step)
  next
    case (Some err)
    then show ?thesis
      using t by (simp add: step)
  qed
qed

lemma store_inv_garbageCollect: "store_inv s \<Longrightarrow> store_inv (snd (garbageCollect s))"
proof -
  assume inv: "store_inv s"
  have "fst ` set (filter (\<lambda>(k, v). gc_keep (store_w s) k) (store_d s)) \<inter> set Object_prototype = {}"
    using store_inv_entries [OF inv] by auto
  then show ?thesis
    using inv by (cases s rule: garbageCollect_cases) (simp_all add: store_inv_store_d)
qed

lemma store_inv_watch:
  "store_inv s \<Longrightarrow> set L \<inter> set Object_prototype = {} \<Longrightarrow> store_inv (snd (watch L s))"
  unfolding store_inv_def watch_def
  by (auto simp: nth_append less_Suc_eq)

lemma store_inv_add: "store_inv s \<Longrightarrow> store_inv (snd (add items s))"
proof -
  assume inv: "store_inv s"
  obtain e t where step: "add_forEach items s = (e, t)"
    by (cases "add_forEach items s")
  have t: "store_inv t" "e = None \<longrightarrow> set (map getName items) \<inter> set Object_prototype = {}"
    using store_inv_add_forEach [OF inv, of items] by (simp_all add: step)
  show ?thesis
  proof (cases e)
    case None
    then show ?thesis
      using store_inv_watch [OF t(1), of "map getName items"] t(2) by (simp add: add_def step)
  next
    case (Some err)
    then show ?thesis
      using t(1) by (simp add: add_def step)
  qed
qed

lemma count_list_distinct: "distinct xs \<Longrightarrow> count_list xs x = (if x \<in> set xs then 1 else 0)"
  by (induction xs) auto

lemma store_inv_register:
  assumes "store_inv s"
  shows "store_inv (register k h c s)"
proof (cases "h < length (heap s)")
  case False
  then show ?thesis using assms by (simp add: register_eq)
next
  case True
  define wfn where "wfn = heap s ! h"
  define f where "f = \<lparr>fid = fresh s, kind = k, cnames = names wfn, cnamesArr = namesArr wfn, cb = c\<rparr>"
  have I1: "distinct (map fid (store_cbs s))"
    and I2: "\<forall>g \<in> set (store_cbs s). fid g < fresh s"
    and I3: "\<And>i. i < length (heap s) \<Longrightarrow>
        distinct (names (heap s ! i)) \<and> distinct (cbs (heap s ! i))
      \<and> set (cbs (heap s ! i)) \<subseteq> set (store_cbs s)
      \<and> (\<forall>g \<in> set (cbs (heap s ! i)). cnames g = names (heap s ! i))"
    and I7: "\<And>i. i < length (heap s) \<Longrightarrow> set (names (heap s ! i)) \<inter> set Object_prototype = {}"
    and I8: "fst ` set (store_d s) \<inter> set Object_prototype = {}"
    and I4: "\<And>i j. i < length (heap s) \<Longrightarrow> j < length (heap s) \<Longrightarrow> i \<noteq> j \<Longrightarrow>
        set (cbs (heap s ! i)) \<inter> set (cbs (heap s ! j)) = {}"
    and I5: "\<And>n. count_of (store_w s) n
          = int (length (filter (\<lambda>g. n \<in> set (cnames g)) (store_cbs s)))"
    and I6: "ordinary_counts (store_w s)"
    using assms by (simp_all add: store_inv_def)
  have fresh_f: "f \<notin> set (store_cbs s)"
    using I2 by (auto simp: f_def)
  have fid_f: "fid f \<notin> fid ` set (store_cbs s)"
    using I2 by (auto simp: f_def)
  have fresh_heap: "f \<notin> set (cbs (heap s ! i))" if "i < length (heap s)" for i
    using I3 [OF that] fresh_f by blast
  have eq: "register k h c s =
      s\<lparr>heap := (heap s)[h := wfn\<lparr>cbs := cbs wfn @ [f]\<rparr>],
        store_cbs := store_cbs s @ [f],
        store_w := fold incr (names wfn) (store_w s),
        fresh := Suc (fresh s)\<rparr>"
    using True fresh_f fresh_heap [OF True]
    by (simp add: register_eq Let_def Set_add_def wfn_def [symmetric] f_def [symmetric])
  have dn: "distinct (names wfn)"
    using I3 [OF True] by (simp add: wfn_def)
  have J1: "distinct (map fid (store_cbs s @ [f]))"
    using I1 fid_f by simp
  have J2: "\<forall>g \<in> set (store_cbs s @ [f]). fid g < Suc (fresh s)"
    using I2 by (auto simp: f_def less_Suc_eq)
  define H where "H = (heap s)[h := wfn\<lparr>cbs := cbs wfn @ [f]\<rparr>]"
  have lenH: "length H = length (heap s)"
    by (simp add: H_def)
  have Hh: "H ! h = wfn\<lparr>cbs := cbs wfn @ [f]\<rparr>"
    using True by (simp add: H_def)
  have Hi: "H ! i = heap s ! i" if "i \<noteq> h" for i
    using that by (simp add: H_def)
  have J3: "distinct (names (H ! i)) \<and> distinct (cbs (H ! i))
      \<and> set (cbs (H ! i)) \<subseteq> set (store_cbs s @ [f])
      \<and> (\<forall>g \<in> set (cbs (H ! i)). cnames g = names (H ! i))"
    if "i < length (heap s)" for i
  proof (cases "i = h")
    case True
    then show ?thesis
      using I3 [OF \<open>h < length (heap s)\<close>] fresh_heap [OF \<open>h < length (heap s)\<close>]
      by (auto simp: Hh wfn_def f_def)
  next
    case False
    then show ?thesis
      using I3 [OF that] by (auto simp: Hi)
  qed
  have J4: "set (cbs (H ! i)) \<inter> set (cbs (H ! j)) = {}"
    if ij: "i < length (heap s)" "j < length (heap s)" "i \<noteq> j" for i j
  proof -
    have sub: "set (cbs (H ! a)) \<subseteq> insert f (set (cbs (heap s ! a)))" for a
      by (cases "a = h") (auto simp: Hh Hi wfn_def)
    have only: "f \<notin> set (cbs (H ! a))" if "a < length (heap s)" "a \<noteq> h" for a
      using fresh_heap [OF that(1)] that(2) by (simp add: Hi)
    have old: "set (cbs (heap s ! i)) \<inter> set (cbs (heap s ! j)) = {}"
      by (rule I4 [OF ij])
    show ?thesis
    proof (cases "i = h")
      case True
      then have "j \<noteq> h" using ij by simp
      then show ?thesis
        using sub [of i] old only [OF ij(2)] by (auto simp: Hi)
    next
      case False
      then show ?thesis
        using sub [of j] old only [OF ij(1)] by (auto simp: Hi)
    qed
  qed
  have on: "set (names wfn) \<inter> set Object_prototype = {}"
    using I7 [OF True] by (simp add: wfn_def)
  have nonneg: "\<forall>m. 0 \<le> count_of (store_w s) m"
    by (simp add: I5)
  have J56: "ordinary_counts (fold incr (names wfn) (store_w s))
      \<and> (\<forall>m. count_of (fold incr (names wfn) (store_w s)) m
            = count_of (store_w s) m + int (count_list (names wfn) m))"
    by (rule fold_incr_ordinary [OF I6 on nonneg])
  have J5: "count_of (fold incr (names wfn) (store_w s)) n
          = int (length (filter (\<lambda>g. n \<in> set (cnames g)) (store_cbs s @ [f])))" for n
    using dn J56 by (simp add: I5 count_list_distinct f_def)
  have J6: "ordinary_counts (fold incr (names wfn) (store_w s))"
    using J56 by simp
  have J7: "set (names (H ! i)) \<inter> set Object_prototype = {}" if "i < length (heap s)" for i
    using I7 [OF that] on by (cases "i = h") (simp_all add: Hh Hi wfn_def)
  define t where "t = register k h c s"
  have sel: "store_cbs t = store_cbs s @ [f]" "heap t = H"
    "store_w t = fold incr (names wfn) (store_w s)" "fresh t = Suc (fresh s)" "store_d t = store_d s"
    by (simp_all add: t_def eq H_def)
  have "store_inv t"
    unfolding store_inv_def sel lenH
    using J1 J2 J3 J4 J5 J6 J7 I8 by blast
  then show ?thesis by (simp add: t_def)
qed

lemma length_filter_mem:
  assumes "distinct xs" "distinct ys" "set ys \<subseteq> set xs"
  shows "length (filter (\<lambda>x. x \<in> set ys) xs) = length ys"
proof -
  have "set (filter (\<lambda>x. x \<in> set ys) xs) = set ys"
    using assms(3) by auto
  moreover have "distinct (filter (\<lambda>x. x \<in> set ys) xs)"
    using assms(1) by simp
  ultimately show ?thesis
    using assms(2) by (metis distinct_card)
qed

lemma length_filter_split:
  "length (filter P xs) = length (filter (\<lambda>x. P x \<and> Q x) xs) + length (filter (\<lambda>x. P x \<and> \<not> Q x) xs)"
  by (induction xs) auto

lemma store_inv_unsubscribe:
  assumes "store_inv s"
  shows "store_inv (unsubscribe h s)"
proof (cases "h < length (heap s)")
  case False
  then show ?thesis using assms by (simp add: unsubscribe_def)
next
  case True
  define wfn where "wfn = heap s ! h"
  define F where "F = cbs wfn"
  have I1: "distinct (map fid (store_cbs s))"
    and I2: "\<forall>g \<in> set (store_cbs s). fid g < fresh s"
    and I3: "\<And>i. i < length (heap s) \<Longrightarrow>
        distinct (names (heap s ! i)) \<and> distinct (cbs (heap s ! i))
      \<and> set (cbs (heap s ! i)) \<subseteq> set (store_cbs s)
      \<and> (\<forall>g \<in> set (cbs (heap s ! i)). cnames g = names (heap s ! i))"
    and I7: "\<And>i. i < length (heap s) \<Longrightarrow> set (names (heap s ! i)) \<inter> set Object_prototype = {}"
    and I8: "fst ` set (store_d s) \<inter> set Object_prototype = {}"
    and I4: "\<And>i j. i < length (heap s) \<Longrightarrow> j < length (heap s) \<Longrightarrow> i \<noteq> j \<Longrightarrow>
        set (cbs (heap s ! i)) \<inter> set (cbs (heap s ! j)) = {}"
    and I5: "\<And>n. count_of (store_w s) n
          = int (length (filter (\<lambda>g. n \<in> set (cnames g)) (store_cbs s)))"
    and I6: "ordinary_counts (store_w s)"
    using assms by (simp_all add: store_inv_def)
  define H where "H = (heap s)[h := wfn\<lparr>cbs := []\<rparr>]"
  define C where "C = filter (\<lambda>f. f \<notin> set F) (store_cbs s)"
  define W where "W = ((fold decr (names wfn)) ^^ length F) (store_w s)"
  define t where "t = unsubscribe h s"
  have sel: "store_cbs t = C" "heap t = H" "store_w t = W" "fresh t = fresh s" "store_d t = store_d s"
    using True by (simp_all add: t_def unsubscribe_eq H_def C_def W_def wfn_def F_def)
  have lenH: "length H = length (heap s)"
    by (simp add: H_def)
  have Hh: "H ! h = wfn\<lparr>cbs := []\<rparr>"
    using True by (simp add: H_def)
  have Hi: "H ! i = heap s ! i" if "i \<noteq> h" for i
    using that by (simp add: H_def)
  have Fprops: "distinct (names wfn)" "distinct F" "set F \<subseteq> set (store_cbs s)"
    "\<forall>g \<in> set F. cnames g = names wfn"
    using I3 [OF True] by (simp_all add: wfn_def F_def)
  have dC: "distinct (store_cbs s)"
    using I1 by (rule distinct_map [THEN iffD1, THEN conjunct1])
  have J1: "distinct (map fid C)"
    using I1 by (simp add: C_def distinct_map_filter)
  have J2: "\<forall>g \<in> set C. fid g < fresh s"
    using I2 by (simp add: C_def)
  have J3: "distinct (names (H ! i)) \<and> distinct (cbs (H ! i))
      \<and> set (cbs (H ! i)) \<subseteq> set C
      \<and> (\<forall>g \<in> set (cbs (H ! i)). cnames g = names (H ! i))"
    if "i < length (heap s)" for i
  proof (cases "i = h")
    case True
    then show ?thesis
      using Fprops(1) by (simp add: Hh)
  next
    case False
    have "set (cbs (heap s ! i)) \<inter> set F = {}"
      using I4 [OF that \<open>h < length (heap s)\<close> False] by (simp add: F_def wfn_def)
    then show ?thesis
      using I3 [OF that] False by (auto simp: Hi C_def)
  qed
  have J4: "set (cbs (H ! i)) \<inter> set (cbs (H ! j)) = {}"
    if ij: "i < length (heap s)" "j < length (heap s)" "i \<noteq> j" for i j
  proof -
    have "set (cbs (H ! a)) \<subseteq> set (cbs (heap s ! a))" for a
      by (cases "a = h") (simp_all add: Hh Hi)
    then show ?thesis
      using I4 [OF ij] by blast
  qed
  have on: "set (names wfn) \<inter> set Object_prototype = {}"
    using I7 [OF True] by (simp add: wfn_def)
  have J56: "ordinary_counts (((fold decr (names wfn)) ^^ length F) (store_w s))
      \<and> (\<forall>m. count_of (((fold decr (names wfn)) ^^ length F) (store_w s)) m
            = count_of (store_w s) m - int (length F) * int (count_list (names wfn) m))"
    by (rule funpow_decr_ordinary [OF I6 on])
  have J5: "count_of W n = int (length (filter (\<lambda>g. n \<in> set (cnames g)) C))" for n
  proof -
    let ?P = "\<lambda>g. n \<in> set (cnames g)"
    have split: "length (filter ?P (store_cbs s))
        = length (filter (\<lambda>g. ?P g \<and> g \<in> set F) (store_cbs s)) + length (filter ?P C)"
      using length_filter_split [of ?P "store_cbs s" "\<lambda>g. g \<in> set F"]
      by (simp add: C_def conj_commute)
    show ?thesis
    proof (cases "n \<in> set (names wfn)")
      case True
      have "filter (\<lambda>g. ?P g \<and> g \<in> set F) (store_cbs s) = filter (\<lambda>g. g \<in> set F) (store_cbs s)"
        using Fprops(4) True by (intro filter_cong) auto
      then have "length (filter (\<lambda>g. ?P g \<and> g \<in> set F) (store_cbs s)) = length F"
        using length_filter_mem [OF dC Fprops(2) Fprops(3)] by simp
      then show ?thesis
        using split True Fprops(1)
        by (simp add: W_def J56 I5 count_list_distinct)
    next
      case False
      have "filter (\<lambda>g. ?P g \<and> g \<in> set F) (store_cbs s) = []"
        using Fprops(4) False by (auto simp: filter_empty_conv)
      then show ?thesis
        using split False Fprops(1)
        by (simp add: W_def J56 I5 count_list_distinct)
    qed
  qed
  have J6: "ordinary_counts W"
    using J56 by (simp add: W_def)
  have J7: "set (names (H ! i)) \<inter> set Object_prototype = {}" if "i < length (heap s)" for i
    using I7 [OF that] on by (cases "i = h") (simp_all add: Hh Hi wfn_def)
  have "store_inv t"
    unfolding store_inv_def sel lenH
    using J1 J2 J3 J4 J5 J6 J7 I8 by blast
  then show ?thesis by (simp add: t_def)
qed

lemma fst_notifications: "fst ` set (notifications n data s) \<subseteq> fid ` set (store_cbs s)"
  by (auto simp: notifications_def)

lemma calls_add_item:
  "\<exists>new. calls (snd (add_item r s)) = calls s @ new \<and> fst ` set new \<subseteq> fid ` set (store_cbs s)"
proof -
  have pub: "\<exists>new. calls (publish n x (s\<lparr>store_d := d\<rparr>)) = calls s @ new
      \<and> fst ` set new \<subseteq> fid ` set (store_cbs s)" for n x d
    using fst_notifications [of n x "s\<lparr>store_d := d\<rparr>"] by (simp add: publish_eq)
  show ?thesis
  proof (cases "get (getName r) s")
    case Undefined
    then show ?thesis
      using pub by (simp add: add_item_def Let_def)
  next
    case (Own stored)
    then show ?thesis
      using pub by (cases "isResourceEqual r stored") (simp_all add: add_item_def Let_def)
  next
    case (Inherited m)
    then show ?thesis
      by (simp add: add_item_def Let_def)
  qed
qed

lemma store_cbs_add_item: "store_cbs (snd (add_item r s)) = store_cbs s"
  by (simp add: add_item_def Let_def publish_eq split: lookup.splits)

lemma calls_add_forEach:
  "\<exists>new. calls (snd (add_forEach rs s)) = calls s @ new \<and> fst ` set new \<subseteq> fid ` set (store_cbs s)"
proof (induction rs arbitrary: s)
  case Nil
  then show ?case by simp
next
  case (Cons r rs)
  obtain e t where step: "add_item r s = (e, t)"
    by (cases "add_item r s")
  obtain new1 where n1: "calls t = calls s @ new1" "fst ` set new1 \<subseteq> fid ` set (store_cbs s)"
    using calls_add_item [of r s] by (auto simp: step)
  have c: "store_cbs t = store_cbs s"
    using store_cbs_add_item [of r s] by (simp add: step)
  show ?case
  proof (cases e)
    case None
    obtain new2 where n2: "calls (snd (add_forEach rs t)) = calls t @ new2"
        "fst ` set new2 \<subseteq> fid ` set (store_cbs t)"
      using Cons.IH by blast
    have "calls (snd (add_forEach (r # rs) s)) = calls s @ (new1 @ new2)"
      using n1 n2 None by (simp add: step)
    moreover have "fst ` set (new1 @ new2) \<subseteq> fid ` set (store_cbs s)"
      using n1 n2 c by auto
    ultimately show ?thesis by blast
  next
    case (Some err)
    then show ?thesis
      using n1 by (simp add: step)
  qed
qed

lemma calls_add:
  "\<exists>new. calls (snd (add items s)) = calls s @ new \<and> fst ` set new \<subseteq> fid ` set (store_cbs s)"
proof -
  obtain e t where step: "add_forEach items s = (e, t)"
    by (cases "add_forEach items s")
  have "calls (snd (add items s)) = calls t"
    by (cases e) (simp_all add: add_def step watch_def)
  then show ?thesis
    using calls_add_forEach [of items s] by (simp add: step)
qed

lemma register_frame:
  "calls (register k h c s) = calls s"
  "fresh s \<le> fresh (register k h c s)"
  "f \<in> set (store_cbs (register k h c s)) \<Longrightarrow> f \<in> set (store_cbs s) \<or> fid f = fresh s"
proof -
  show "calls (register k h c s) = calls s"
    by (cases "h < length (heap s)") (simp_all add: register_eq Let_def)
  show "fresh s \<le> fresh (register k h c s)"
    by (cases "h < length (heap s)") (simp_all add: register_eq Let_def)
  assume "f \<in> set (store_cbs (register k h c s))"
  then show "f \<in> set (store_cbs s) \<or> fid f = fresh s"
    by (cases "h < length (heap s)") (auto simp: register_eq Let_def Set_add_def split: if_splits)
qed

lemma unsubscribe_frame:
  "calls (unsubscribe h s) = calls s"
  "fresh (unsubscribe h s) = fresh s"
  "set (store_cbs (unsubscribe h s)) \<subseteq> set (store_cbs s)"
  "store_d (unsubscribe h s) = store_d s"
proof -
  show "calls (unsubscribe h s) = calls s"
    by (cases "h < length (heap s)") (simp_all add: unsubscribe_eq, simp add: unsubscribe_def)
  show "fresh (unsubscribe h s) = fresh s"
    by (cases "h < length (heap s)") (simp_all add: unsubscribe_eq, simp add: unsubscribe_def)
  show "set (store_cbs (unsubscribe h s)) \<subseteq> set (store_cbs s)"
    by (cases "h < length (heap s)") (simp_all add: unsubscribe_eq, simp add: unsubscribe_def)
  show "store_d (unsubscribe h s) = store_d s"
    by (cases "h < length (heap s)") (simp_all add: unsubscribe_eq, simp add: unsubscribe_def)
qed

lemma calls_exec:
  "\<exists>new. calls (exec op s) = calls s @ new \<and> fst ` set new \<subseteq> fid ` set (store_cbs s)"
proof (cases op)
  case (Add items)
  then show ?thesis
    using calls_add [of items s] by simp
next
  case (Get n)
  then show ?thesis by simp
next
  case (Del n)
  have "calls (del n s) = calls s @ notifications n None (s\<lparr>store_d := AList.delete n (store_d s)\<rparr>)"
    by (simp add: del_def publish_eq)
  moreover have "fst ` set (notifications n None (s\<lparr>store_d := AList.delete n (store_d s)\<rparr>))
      \<subseteq> fid ` set (store_cbs s)"
    using fst_notifications [of n None "s\<lparr>store_d := AList.delete n (store_d s)\<rparr>"] by simp
  ultimately show ?thesis
    using Del by auto
next
  case (Watch L)
  then show ?thesis by (simp add: watch_def)
next
  case (WatchFuncCall h c)
  then show ?thesis using register_frame(1) [of Plain h c s] by (simp add: register_def)
next
  case (ArrayWatcher h c)
  then show ?thesis using register_frame(1) [of Array h c s] by (simp add: register_def)
next
  case (Unsubscribe h)
  then show ?thesis by (simp add: unsubscribe_frame)
next
  case GarbageCollect
  then show ?thesis by (simp add: garbageCollect_frame)
qed

lemma store_cbs_exec:
  assumes "f \<in> set (store_cbs (exec op s))"
  shows "f \<in> set (store_cbs s) \<or> fid f = fresh s"
proof (cases op)
  case (Add items)
  then show ?thesis using assms by (simp add: add_frame)
next
  case (Get n)
  then show ?thesis using assms by simp
next
  case (Del n)
  then show ?thesis using assms by (simp add: del_def publish_eq)
next
  case (Watch L)
  then show ?thesis using assms by (simp add: watch_def)
next
  case (WatchFuncCall h c)
  then show ?thesis using assms register_frame(3) [of f Plain h c s] by (simp add: register_def)
next
  case (ArrayWatcher h c)
  then show ?thesis using assms register_frame(3) [of f Array h c s] by (simp add: register_def)
next
  case (Unsubscribe h)
  then show ?thesis using assms unsubscribe_frame(3) [of h s] by auto
next
  case GarbageCollect
  then show ?thesis using assms by (simp add: garbageCollect_frame)
qed

lemma fresh_exec: "fresh s \<le> fresh (exec op s)"
proof (cases op)
  case (Add items)
  then show ?thesis by (simp add: add_frame)
next
  case (Get n)
  then show ?thesis by simp
next
  case (Del n)
  then show ?thesis by (simp add: del_def publish_eq)
next
  case (Watch L)
  then show ?thesis by (simp add: watch_def)
next
  case (WatchFuncCall h c)
  then show ?thesis using register_frame(2) [of s Plain h c] by (simp add: register_def)
next
  case (ArrayWatcher h c)
  then show ?thesis using register_frame(2) [of s Array h c] by (simp add: register_def)
next
  case (Unsubscribe h)
  then show ?thesis by (simp add: unsubscribe_frame)
next
  case GarbageCollect
  then show ?thesis by (simp add: garbageCollect_frame)
qed

lemma run_dead:
  assumes "\<forall>f \<in> set (store_cbs s). fid f \<notin> D" and "\<forall>d \<in> D. d < fresh s"
  shows "\<exists>new. calls (run ops s) = calls s @ new \<and> (\<forall>e \<in> set new. fst e \<notin> D)
     \<and> (\<forall>f \<in> set (store_cbs (run ops s)). fid f \<notin> D)"
  using assms
proof (induction ops arbitrary: s)
  case Nil
  then show ?case by (simp add: run_def)
next
  case (Cons op ops)
  obtain new1 where n1: "calls (exec op s) = calls s @ new1" "fst ` set new1 \<subseteq> fid ` set (store_cbs s)"
    using calls_exec by blast
  have a: "\<forall>f \<in> set (store_cbs (exec op s)). fid f \<notin> D"
  proof
    fix f assume "f \<in> set (store_cbs (exec op s))"
    then have "f \<in> set (store_cbs s) \<or> fid f = fresh s"
      by (rule store_cbs_exec)
    then show "fid f \<notin> D"
      using Cons.prems by auto
  qed
  have b: "\<forall>d \<in> D. d < fresh (exec op s)"
    using fresh_exec [of s op] Cons.prems(2) by auto
  obtain new2 where n2: "calls (run ops (exec op s)) = calls (exec op s) @ new2"
      "\<forall>e \<in> set new2. fst e \<notin> D" "\<forall>f \<in> set (store_cbs (run ops (exec op s))). fid f \<notin> D"
    using Cons.IH [OF a b] by (elim exE conjE)
  have r: "run (op # ops) s = run ops (exec op s)"
    by (simp add: run_def)
  have "fst e \<notin> D" if "e \<in> set new1" for e
  proof -
    from that n1(2) have "fst e \<in> fid ` set (store_cbs s)"
      by auto
    then obtain f where "f \<in> set (store_cbs s)" "fst e = fid f"
      by auto
    then show ?thesis
      using Cons.prems(1) by auto
  qed
  then have "\<forall>e \<in> set (new1 @ new2). fst e \<notin> D"
    using n2(2) by auto
  moreover have "calls (run (op # ops) s) = calls s @ (new1 @ new2)"
    using n1(1) n2(1) r by simp
  ultimately show ?case
    using n2(3) unfolding r by (intro exI [of _ "new1 @ new2"] conjI)
qed

lemma store_inv_fid_mem:
  assumes "store_inv s" "h < length (heap s)" "f \<in> set (store_cbs s)"
  shows "fid f \<in> fid ` set (cbs (heap s ! h)) \<longleftrightarrow> f \<in> set (cbs (heap s ! h))"
proof
  assume "fid f \<in> fid ` set (cbs (heap s ! h))"
  then obtain g where g: "g \<in> set (cbs (heap s ! h))" "fid f = fid g"
    by auto
  have "set (cbs (heap s ! h)) \<subseteq> set (store_cbs s)" and "distinct (map fid (store_cbs s))"
    using assms(1,2) by (simp_all add: store_inv_def)
  then have "g \<in> set (store_cbs s)" and "inj_on fid (set (store_cbs s))"
    using g(1) by (auto simp: distinct_map)
  then have "f = g"
    using assms(3) g(2) by (auto dest: inj_onD)
  then show "f \<in> set (cbs (heap s ! h))"
    using g(1) by simp
qed simp

lemma store_inv_exec: "store_inv s \<Longrightarrow> ordinary_op op \<Longrightarrow> store_inv (exec op s)"
proof (cases op)
  case (Add items)
  assume "store_inv s"
  then show ?thesis using Add by (simp add: store_inv_add)
next
  case (Get n)
  assume "store_inv s"
  then show ?thesis using Get by simp
next
  case (Del n)
  assume "store_inv s"
  then show ?thesis using Del by (simp add: store_inv_del)
next
  case (Watch L)
  assume "store_inv s" "ordinary_op op"
  then show ?thesis using Watch by (simp add: store_inv_watch)
next
  case (WatchFuncCall h c)
  assume "store_inv s"
  then show ?thesis using WatchFuncCall store_inv_register [of s Plain h c] by (simp add: register_def)
next
  case (ArrayWatcher h c)
  assume "store_inv s"
  then show ?thesis using ArrayWatcher store_inv_register [of s Array h c] by (simp add: register_def)
next
  case (Unsubscribe h)
  assume "store_inv s"
  then show ?thesis using Unsubscribe by (simp add: store_inv_unsubscribe)
next
  case GarbageCollect
  assume "store_inv s"
  then show ?thesis using GarbageCollect by (simp add: store_inv_garbageCollect)
qed

lemma store_inv_run: "store_inv s \<Longrightarrow> list_all ordinary_op ops \<Longrightarrow> store_inv (run ops s)"
  unfolding run_def by (induction ops arbitrary: s) (simp_all add: store_inv_exec)

lemma store_inv_reachable: "list_all ordinary_op ops \<Longrightarrow> store_inv (run ops DataStore_new)"
  by (simp add: store_inv_run store_inv_new)

lemma map_of_count_of:
  assumes "ordinary_counts w"
  shows "map_of w n = (if count_of w n = 0 then None else Some (Num (count_of w n)))"
  using ordinary_map_of [OF assms, of n] by (auto simp: count_of_ordinary [OF assms])

lemma store_inv_names:
  "store_inv s \<Longrightarrow> h < length (heap s) \<Longrightarrow>
   distinct (names (heap s ! h)) \<and> set (names (heap s ! h)) \<inter> set Object_prototype = {}"
  by (simp add: store_inv_def)

lemma store_inv_nonneg: "store_inv s \<Longrightarrow> 0 \<le> count_of (store_w s) n"
  by (simp add: store_inv_def)

lemma register_count:
  assumes "store_inv s" "h < length (heap s)"
  shows "count_of (store_w (register k h c s)) n
       = count_of (store_w s) n + (if n \<in> set (names (heap s ! h)) then 1 else 0)"
proof -
  have o: "ordinary_counts (store_w s)"
    using assms(1) by (simp add: store_inv_def)
  have nn: "\<forall>m. 0 \<le> count_of (store_w s) m"
    using store_inv_nonneg [OF assms(1)] by simp
  have nm: "distinct (names (heap s ! h))" "set (names (heap s ! h)) \<inter> set Object_prototype = {}"
    using store_inv_names [OF assms] by simp_all
  show ?thesis
    using fold_incr_ordinary [OF o nm(2) nn] assms(2) nm(1)
    by (simp add: register_eq Let_def count_list_distinct)
qed

lemma unsubscribe_count:
  assumes "store_inv s" "h < length (heap s)"
  shows "count_of (store_w (unsubscribe h s)) n
       = count_of (store_w s) n
         - (if n \<in> set (names (heap s ! h)) then int (length (cbs (heap s ! h))) else 0)"
proof -
  have o: "ordinary_counts (store_w s)"
    using assms(1) by (simp add: store_inv_def)
  have nm: "distinct (names (heap s ! h))" "set (names (heap s ! h)) \<inter> set Object_prototype = {}"
    using store_inv_names [OF assms] by simp_all
  show ?thesis
    using funpow_decr_ordinary [OF o nm(2), of "length (cbs (heap s ! h))"] assms(2) nm(1)
    by (simp add: unsubscribe_eq count_list_distinct)
qed

lemma refcounts_ordinary:
  assumes "list_all ordinary_op ops" and "s = run ops DataStore_new"
  shows "(\<forall>n v. map_of (store_w s) n = Some v \<longrightarrow> (\<exists>c. v = Num c \<and> 0 < c))
   \<and> (\<forall>n. count_of (store_w s) n
          = int (length (filter (\<lambda>f. n \<in> set (cnames f)) (store_cbs s))))
   \<and> (\<forall>h c n. h < length (heap s) \<longrightarrow>
         count_of (store_w (watchFunc_call h c s)) n
           = count_of (store_w s) n + (if n \<in> set (names (heap s ! h)) then 1 else 0))
   \<and> (\<forall>h c n. h < length (heap s) \<longrightarrow>
         count_of (store_w (arrayWatcher h c s)) n
           = count_of (store_w s) n + (if n \<in> set (names (heap s ! h)) then 1 else 0))
   \<and> (\<forall>h n. h < length (heap s) \<longrightarrow>
         count_of (store_w (unsubscribe h s)) n
           = count_of (store_w s) n
             - (if n \<in> set (names (heap s ! h)) then int (length (cbs (heap s ! h))) else 0))"
proof -
  have inv: "store_inv s"
    using assms by (simp add: store_inv_reachable)
  have o: "ordinary_counts (store_w s)"
    using inv by (simp add: store_inv_def)
  have pos: "\<forall>n v. map_of (store_w s) n = Some v \<longrightarrow> (\<exists>c. v = Num c \<and> 0 < c)"
  proof (intro allI impI)
    fix n v assume v: "map_of (store_w s) n = Some v"
    have "map_of (store_w s) n = (if count_of (store_w s) n = 0 then None
        else Some (Num (count_of (store_w s) n)))"
      by (rule map_of_count_of [OF o])
    then have "v = Num (count_of (store_w s) n)" "count_of (store_w s) n \<noteq> 0"
      using v by (auto split: if_splits)
    then show "\<exists>c. v = Num c \<and> 0 < c"
      using store_inv_nonneg [OF inv, of n] by auto
  qed
  have cnt: "\<forall>n. count_of (store_w s) n
          = int (length (filter (\<lambda>f. n \<in> set (cnames f)) (store_cbs s)))"
    using inv by (simp add: store_inv_def)
  have plain: "\<forall>h c n. h < length (heap s) \<longrightarrow>
         count_of (store_w (watchFunc_call h c s)) n
           = count_of (store_w s) n + (if n \<in> set (names (heap s ! h)) then 1 else 0)"
    using register_count [OF inv, of _ Plain] by (simp add: register_def)
  have array: "\<forall>h c n. h < length (heap s) \<longrightarrow>
         count_of (store_w (arrayWatcher h c s)) n
           = count_of (store_w s) n + (if n \<in> set (names (heap s ! h)) then 1 else 0)"
    using register_count [OF inv, of _ Array] by (simp add: register_def)
  have unsub: "\<forall>h n. h < length (heap s) \<longrightarrow>
         count_of (store_w (unsubscribe h s)) n
           = count_of (store_w s) n
             - (if n \<in> set (names (heap s ! h)) then int (length (cbs (heap s ! h))) else 0)"
    by (intro allI impI) (rule unsubscribe_count [OF inv])
  show ?thesis
    using pos cnt plain array unsub by (intro conjI)
qed

lemma unsubscribe_ordinary:
  assumes "list_all ordinary_op pre" and "s = run pre DataStore_new" and "h < length (heap s)"
  shows "let F = cbs (heap s ! h); t = unsubscribe h s in
      store_cbs t = filter (\<lambda>f. f \<notin> set F) (store_cbs s)
    \<and> cbs (heap t ! h) = []
    \<and> (\<forall>j. j \<noteq> h \<longrightarrow> heap t ! j = heap s ! j)
    \<and> (\<forall>j < length (heap s). j \<noteq> h \<longrightarrow> set (cbs (heap s ! j)) \<subseteq> set (store_cbs t))
    \<and> store_d t = store_d s \<and> calls t = calls s
    \<and> (\<forall>n. map_of (store_w t) n =
          (let c = count_of (store_w s) n
                   - (if n \<in> set (names (heap s ! h)) then int (length F) else 0)
           in if c = 0 then None else Some (Num c)))
    \<and> (\<forall>n data. notifications n data t
          = filter (\<lambda>e. fst e \<notin> fid ` set F) (notifications n data s))
    \<and> (\<forall>ops. \<exists>new. calls (run ops t) = calls t @ new \<and> (\<forall>e \<in> set new. fst e \<notin> fid ` set F))"
proof -
  define F where "F = cbs (heap s ! h)"
  define t where "t = unsubscribe h s"
  have inv: "store_inv s"
    using assms(1,2) by (simp add: store_inv_reachable)
  have inv_t: "store_inv t"
    unfolding t_def by (rule store_inv_unsubscribe [OF inv])
  have t_eq: "t = s\<lparr>heap := (heap s)[h := (heap s ! h)\<lparr>cbs := []\<rparr>],
       store_cbs := filter (\<lambda>f. f \<notin> set F) (store_cbs s),
       store_w := ((fold decr (names (heap s ! h))) ^^ length F) (store_w s)\<rparr>"
    unfolding t_def F_def by (rule unsubscribe_eq [OF assms(3)])
  have c1: "store_cbs t = filter (\<lambda>f. f \<notin> set F) (store_cbs s)"
    by (simp add: t_eq)
  have c2: "cbs (heap t ! h) = []"
    using assms(3) by (simp add: t_eq)
  have c3: "\<forall>j. j \<noteq> h \<longrightarrow> heap t ! j = heap s ! j"
    by (simp add: t_eq)
  have c4: "\<forall>j < length (heap s). j \<noteq> h \<longrightarrow> set (cbs (heap s ! j)) \<subseteq> set (store_cbs t)"
  proof (intro allI impI)
    fix j assume j: "j < length (heap s)" "j \<noteq> h"
    have "set (cbs (heap s ! j)) \<subseteq> set (store_cbs s)"
      and "set (cbs (heap s ! j)) \<inter> set (cbs (heap s ! h)) = {}"
      using inv j assms(3) by (simp_all add: store_inv_def)
    then show "set (cbs (heap s ! j)) \<subseteq> set (store_cbs t)"
      unfolding c1 F_def by auto
  qed
  have c5: "store_d t = store_d s" "calls t = calls s"
    by (simp_all add: t_eq)
  have c6: "\<forall>n. map_of (store_w t) n =
          (let c = count_of (store_w s) n
                   - (if n \<in> set (names (heap s ! h)) then int (length F) else 0)
           in if c = 0 then None else Some (Num c))"
  proof
    fix n
    have nz: "ordinary_counts (store_w t)"
      using inv_t by (simp add: store_inv_def)
    define c where "c = count_of (store_w s) n
        - (if n \<in> set (names (heap s ! h)) then int (length F) else 0)"
    have e: "count_of (store_w t) n = c"
      unfolding t_def F_def c_def
      by (rule unsubscribe_count [OF inv assms(3)])
    have "map_of (store_w t) n = (if c = 0 then None else Some (Num c))"
      using map_of_count_of [OF nz, of n] unfolding e .
    then show "map_of (store_w t) n =
          (let c = count_of (store_w s) n
                   - (if n \<in> set (names (heap s ! h)) then int (length F) else 0)
           in if c = 0 then None else Some (Num c))"
      unfolding c_def Let_def .
  qed
  have c7: "\<forall>n data. notifications n data t
          = filter (\<lambda>e. fst e \<notin> fid ` set F) (notifications n data s)"
  proof (intro allI)
    fix n data
    have "filter (\<lambda>f. fires f n) (filter (\<lambda>f. f \<notin> set F) (store_cbs s))
        = filter (\<lambda>f. fid f \<notin> fid ` set F) (filter (\<lambda>f. fires f n) (store_cbs s))"
      unfolding filter_filter
      by (rule filter_cong) (auto simp: F_def store_inv_fid_mem [OF inv assms(3)])
    then show "notifications n data t
          = filter (\<lambda>e. fst e \<notin> fid ` set F) (notifications n data s)"
      by (simp add: notifications_def c1 filter_map comp_def call_of_cong [OF c5(1)])
  qed
  have c8: "\<forall>ops. \<exists>new. calls (run ops t) = calls t @ new \<and> (\<forall>e \<in> set new. fst e \<notin> fid ` set F)"
  proof
    fix ops
    have gone: "\<forall>f \<in> set (store_cbs t). fid f \<notin> fid ` set F"
      unfolding c1 by (auto simp: F_def store_inv_fid_mem [OF inv assms(3)])
    have "set F \<subseteq> set (store_cbs s)" and "\<forall>f \<in> set (store_cbs s). fid f < fresh s"
      using inv assms(3) by (simp_all add: store_inv_def F_def)
    then have old: "\<forall>d \<in> fid ` set F. d < fresh t"
      by (auto simp: t_eq)
    show "\<exists>new. calls (run ops t) = calls t @ new \<and> (\<forall>e \<in> set new. fst e \<notin> fid ` set F)"
      using run_dead [OF gone old, of ops] by (elim exE conjE) (intro exI conjI)
  qed
  show ?thesis
    unfolding F_def [symmetric] t_def [symmetric] Let_def
    using c1 c2 c3 c4 c5 c6 c7 c8 unfolding Let_def by (intro conjI)
qed

section \<open>Claims\<close>

subsection \<open>Hierarchical matching of plain watchers\<close>

text \<open>
  Claim C1 says that a plain watcher on the name set \<open>S\<close> is called for a change to
  \<open>N\<close> exactly when a truncation of \<open>N\<close> at a separator, or \<open>N\<close> itself, is in
  \<open>S\<close>. Lemma \<open>plain_matches_spec\<close> shows that the filter does this for every name
  whose first segment is not empty. For a name that starts with the separator,
  \<open>watchNames\<close> drops the leading empty segment from the later prefixes, so the list
  for \<open>/a\<close> is \<open>["", "a"]\<close>: after \<open>watch("/a")(cb)\<close>, \<open>add\<close> of a resource named
  \<open>/a\<close> calls nothing although \<open>/a\<close> itself is watched, and after
  \<open>watch("a")(cb)\<close> the same \<open>add\<close> calls \<open>cb\<close> although \<open>a\<close> is no prefix of
  \<open>/a\<close>.
\<close>

theorem plain_watcher_leading_slash:
  "names (heap watching_slash_a ! 0) = [''/a'']
   \<and> ''/a'' \<in> set (spec_ancestor_prefixes ''/a'')
   \<and> watchNames ''/a'' = ['''', ''a'']
   \<and> calls watching_slash_a = []
   \<and> calls (snd (add [res ''/a'' 1 0] watching_slash_a)) = []
   \<and> names (heap watching_a ! 0) = [''a'']
   \<and> ''a'' \<notin> set (spec_ancestor_prefixes ''/a'')
   \<and> calls watching_a = []
   \<and> calls (snd (add [res ''/a'' 1 0] watching_a)) = [(0, Call ''cb'' ''/a'' (Some (res ''/a'' 1 0)))]"
  by code_simp

subsection \<open>Garbage collection\<close>

text \<open>
  Claim C2 says that \<open>garbageCollect\<close> keeps exactly the keys that have an ancestor
  prefix, or themselves, in \<open>_w\<close>. Lemma \<open>gc_keep_spec\<close> shows this for the retention
  test on every key whose first segment is not empty, \<open>garbageCollect_silent\<close> that no
  callback is called, and \<open>garbageCollect_two_handles\<close> evaluates the scenario with two
  handles. For the key \<open>/a\<close> the retention test goes through the same \<open>watchNames\<close>:
  \<open>garbageCollect\<close> returns normally and the entry \<open>/a\<close> is removed although \<open>_w\<close>
  holds the count 1 for \<open>/a\<close> itself.
\<close>

theorem garbageCollect_leading_slash:
  "get ''/a'' holding_slash_a = Own (res ''/a'' 1 0)
   \<and> get_prop (store_w holding_slash_a) ''/a'' = Own (Num 1)
   \<and> ''/a'' \<in> set (spec_ancestor_prefixes ''/a'')
   \<and> fst (garbageCollect holding_slash_a) = None
   \<and> get ''/a'' (snd (garbageCollect holding_slash_a)) = Undefined"
  by code_simp

subsection \<open>Adding an unchanged resource\<close>

text \<open>
  Claim C3. If a resource \<open>r\<close> is stored under a name and \<open>add\<close> is called with a
  resource \<open>r'\<close> of the same name whose snapshot equals that of \<open>r\<close>, then \<open>add\<close>
  returns a handle without raising, the entries, the registered callbacks and the
  counts are unchanged, no callback is called, and \<open>get\<close> still returns \<open>r\<close>, which is
  structurally equal to \<open>r'\<close>. The only effect of the call is the fresh, unused handle
  that \<open>add\<close> returns.
\<close>

theorem add_equal_snapshot_silent:
  assumes "get (getName r') s = Own r" and "toObject r' = toObject r"
  shows "fst (add [r'] s) = Inr (length (heap s))
       \<and> store_d (snd (add [r'] s)) = store_d s
       \<and> store_cbs (snd (add [r'] s)) = store_cbs s
       \<and> store_w (snd (add [r'] s)) = store_w s
       \<and> calls (snd (add [r'] s)) = calls s
       \<and> get (getName r') (snd (add [r'] s)) = Own r
       \<and> isResourceEqual r' r"
  using assms by (simp add: add_def add_item_same watch_def get_def isResourceEqual_def)

theorem add_equal_snapshot_silent_witness:
  "get (getName (res ''a'' 1 5)) holding_a = Own (res ''a'' 1 0)
   \<and> toObject (res ''a'' 1 5) = toObject (res ''a'' 1 0)
   \<and> res ''a'' 1 5 \<noteq> res ''a'' 1 0
   \<and> store_d (snd (add [res ''a'' 1 5] holding_a)) = store_d holding_a
   \<and> calls (snd (add [res ''a'' 1 5] holding_a)) = calls holding_a
   \<and> get ''a'' (snd (add [res ''a'' 1 5] holding_a)) = Own (res ''a'' 1 0)"
proof -
  have stored: "get (getName (res ''a'' 1 5)) holding_a = Own (res ''a'' 1 0)"
    by code_simp
  have same: "toObject (res ''a'' 1 5) = toObject (res ''a'' 1 0)"
    by (simp add: res_def)
  have other: "res ''a'' 1 5 \<noteq> res ''a'' 1 0"
    by (simp add: res_def)
  have name: "getName (res ''a'' 1 5) = ''a''"
    by (simp add: res_def)
  show ?thesis
    using add_equal_snapshot_silent [OF stored same] stored same other name by simp
qed

subsection \<open>Deleting an absent name\<close>

text \<open>
  Claim C4, as stated, says that \<open>del\<close> of an absent name notifies no callback. The
  code publishes unconditionally: with \<open>watch("a")(cb)\<close> registered and no entry
  \<open>a\<close>, \<open>del("a")\<close> calls \<open>cb("a", undefined)\<close>.
\<close>

theorem del_absent_notifies_counterexample:
  "map_of (store_d watching_a) ''a'' = None \<and> get ''a'' watching_a = Undefined
   \<and> calls watching_a = []
   \<and> calls (del ''a'' watching_a) = [(0, Call ''cb'' ''a'' None)]"
  by code_simp

text \<open>
  Claim C4, amended. For a name \<open>n\<close> absent from the entries, \<open>del n\<close> leaves the
  entries, the counts, the registered callbacks and the watch functions unchanged, and
  it still publishes \<open>(n, undefined)\<close>: the callbacks whose filter accepts \<open>n\<close> are
  called. When the retention test of \<open>garbageCollect\<close> keeps every key, the store is
  the same after \<open>garbageCollect\<close>.
\<close>

theorem del_absent_publishes_only:
  "(map_of (store_d s) n = None \<longrightarrow> del n s = s\<lparr>calls := calls s @ notifications n None s\<rparr>)
   \<and> ((\<forall>k \<in> fst ` set (store_d s). gc_keep (store_w s) k) \<longrightarrow> snd (garbageCollect s) = s)"
proof (intro conjI impI)
  assume "map_of (store_d s) n = None"
  then have "AList.delete n (store_d s) = store_d s"
    by (simp add: delete_absent)
  then show "del n s = s\<lparr>calls := calls s @ notifications n None s\<rparr>"
    by (simp add: del_def publish_eq notifications_def call_of_def array_of_def get_def)
next
  assume "\<forall>k \<in> fst ` set (store_d s). gc_keep (store_w s) k"
  then have "filter (\<lambda>(k, v). gc_keep (store_w s) k) (store_d s) = store_d s"
    by (auto simp: filter_id_conv)
  then show "snd (garbageCollect s) = s"
    by (cases s rule: garbageCollect_cases) simp_all
qed

theorem del_absent_publishes_only_witness:
  "map_of (store_d holding_a) ''b'' = None
   \<and> del ''b'' holding_a = holding_a\<lparr>calls := calls holding_a @ notifications ''b'' None holding_a\<rparr>
   \<and> notifications ''b'' None holding_a = []
   \<and> map fst (store_d holding_a) = [''a''] \<and> gc_keep (store_w holding_a) ''a''
   \<and> garbageCollect holding_a = (None, holding_a)"
proof -
  have absent: "map_of (store_d holding_a) ''b'' = None"
    by code_simp
  have none: "notifications ''b'' None holding_a = []"
    by code_simp
  have keys: "map fst (store_d holding_a) = [''a'']"
    by code_simp
  have kept: "gc_keep (store_w holding_a) ''a''"
    by code_simp
  have returns: "fst (garbageCollect holding_a) = None"
    by code_simp
  have "\<forall>k \<in> fst ` set (store_d holding_a). gc_keep (store_w holding_a) k"
    using keys kept by (simp flip: set_map)
  then show ?thesis
    using del_absent_publishes_only [of holding_a "''b''"] absent none keys kept returns
    by (simp add: prod_eq_iff)
qed

subsection \<open>Array watchers\<close>

text \<open>
  Claim C5 says that the array passed to an array callback holds the resources present
  under the names of the watch list, absent names skipped. Lemma
  \<open>arrayWatcher_closure\<close> shows that the closure is called exactly for the members of
  the list and that the array holds, in the order of the list, every result of \<open>get\<close>
  that is not \<open>undefined\<close>; lemma \<open>array_of_entries\<close> shows that these are the stored
  resources when no name of the list is a member of \<open>Object.prototype\<close>, and
  \<open>arrayWatcher_scenario\<close> evaluates the scenario of the claim. But \<open>get\<close> reads
  \<open>_d[name]\<close> through the prototype chain: after \<open>watch("toString").arrayWatcher(cb)\<close>
  on a store without entries, \<open>del("toString")\<close> calls \<open>cb\<close> with an array that holds
  the inherited function \<open>toString\<close>.
\<close>

theorem arrayWatcher_inherited_name:
  "namesArr (heap array_toString ! 0) = [''toString'']
   \<and> map fid (store_cbs array_toString) = [0]
   \<and> store_d array_toString = []
   \<and> calls array_toString = []
   \<and> calls (del ''toString'' array_toString)
        = [(0, ArrayCall ''cb'' [Inherited ''toString''] ''toString'' None)]"
  by code_simp

subsection \<open>Unsubscribing\<close>

text \<open>
  Claim C6 says that \<open>unsubscribe\<close> decrements the count of each watched name once per
  removed callback and deletes a counter that reaches zero. The read \<open>_w[n] || 0\<close> goes
  through the prototype chain: \<open>watch("toString")(cb)\<close> stores the text of the
  inherited function followed by \<open>1\<close>, and \<open>unsubscribe\<close> then stores \<open>NaN\<close>, which is
  not \<open>0\<close> and is never deleted, also by a second \<open>unsubscribe\<close>. The callback itself
  is removed. When no handle was created for an inherited name, \<open>unsubscribe\<close> does
  what the claim says (lemma \<open>unsubscribe_ordinary\<close>).
\<close>

theorem unsubscribe_inherited_name:
  "names (heap watching_toString ! 0) = [''toString'']
   \<and> map fid (cbs (heap watching_toString ! 0)) = [0]
   \<and> store_w watching_toString = [(''toString'', Text ''toString'' 1)]
   \<and> store_cbs (unsubscribe 0 watching_toString) = []
   \<and> store_w (unsubscribe 0 watching_toString) = [(''toString'', NaN)]
   \<and> store_w (unsubscribe 0 (unsubscribe 0 watching_toString)) = [(''toString'', NaN)]"
  by code_simp

subsection \<open>Replacing a resource\<close>

text \<open>
  Claim C7 says that a replacement is notified to each registered callback whose
  watch set matches the name. Lemma \<open>add_replacement_publishes\<close> shows that the new
  resource is stored and that exactly the callbacks whose filter accepts the name are
  called, once each. The filter is the one of claim C1: with \<open>watch("/a")(cb)\<close>
  registered and a resource stored under \<open>/a\<close>, \<open>add\<close> of a resource with the same
  name and another snapshot stores it and calls nothing, although \<open>/a\<close> is in the
  watch set of \<open>cb\<close>.
\<close>

theorem replacement_leading_slash:
  "get ''/a'' holding_slash_a = Own (res ''/a'' 1 0)
   \<and> getName (res ''/a'' 2 0) = ''/a''
   \<and> toObject (res ''/a'' 2 0) \<noteq> toObject (res ''/a'' 1 0)
   \<and> map kind (store_cbs holding_slash_a) = [Plain]
   \<and> map cnames (store_cbs holding_slash_a) = [[''/a'']]
   \<and> ''/a'' \<in> set (spec_ancestor_prefixes ''/a'')
   \<and> fst (add [res ''/a'' 2 0] holding_slash_a) = Inr 2
   \<and> get ''/a'' (snd (add [res ''/a'' 2 0] holding_slash_a)) = Own (res ''/a'' 2 0)
   \<and> calls holding_slash_a = []
   \<and> calls (snd (add [res ''/a'' 2 0] holding_slash_a)) = []"
  by code_simp

subsection \<open>Reference counts\<close>

text \<open>
  Claim C8 says that a registration adds one to the count of each watched name, that
  \<open>unsubscribe\<close> subtracts one per callback, and that no count is ever negative or
  zero. The reads of \<open>_w[n]\<close> go through the prototype chain: on one handle for
  \<open>toString\<close>, a plain registration stores the text of the inherited function
  followed by \<open>1\<close>, an array registration appends another \<open>1\<close>, and \<open>unsubscribe\<close>
  then computes \<open>NaN\<close> for the first callback and \<open>(NaN || 0) - 1\<close> for the second:
  the count \<open>-1\<close> stays in \<open>_w\<close> in a state reached from a new store. When no handle
  was created for an inherited name, the bookkeeping is the claimed one (lemma
  \<open>refcounts_ordinary\<close>).
\<close>

theorem refcount_inherited_name:
  "two_on_toString = run [Watch [''toString''], WatchFuncCall 0 ''cb1'', ArrayWatcher 0 ''cb2''] DataStore_new
   \<and> store_w (run [Watch [''toString''], WatchFuncCall 0 ''cb1''] empty_store)
        = [(''toString'', Text ''toString'' 1)]
   \<and> store_w two_on_toString = [(''toString'', Text ''toString'' 2)]
   \<and> store_w (run [Unsubscribe 0] two_on_toString) = [(''toString'', Num (- 1))]
   \<and> store_cbs (run [Unsubscribe 0] two_on_toString) = []"
  by code_simp

subsection \<open>Handles without callbacks\<close>



subsection \<open>Duplicate names in a watch\<close>


end
